theory Spec2Isabelle
  imports Main "HOL-Library.Word" "HOL-Library.Log_Nat"
begin

unbundle bit_operations_syntax

section \<open>Machine types and memory\<close>

text \<open>
  The sketch targets the Arduino Uno (AVR): \<open>uint8_t\<close>, \<open>uint16_t\<close> and \<open>uint32_t\<close> are
  words of that width. A \<open>uint8_t *payload\<close> is modelled as the flat memory around the
  pointer: \<open>payload[i]\<close> is the byte at offset \<open>i\<close>, also for offsets outside the 13 bytes of
  the static buffer, where C reads whatever lies beside it.
\<close>

type_synonym u8 = "8 word"
type_synonym u16 = "16 word"
type_synonym u32 = "32 word"
type_synonym memory = "int \<Rightarrow> u8"

text \<open>A memory holding the given bytes from offset 0 on, and zero elsewhere.\<close>

definition buffer :: "u8 list \<Rightarrow> memory" where
  "buffer bs = (\<lambda>i. if 0 \<le> i \<and> i < int (length bs) then bs ! nat i else 0)"

text \<open>The first \<open>n\<close> bytes behind the pointer.\<close>

definition bytes_of :: "memory \<Rightarrow> nat \<Rightarrow> u8 list" where
  "bytes_of payload n = map (\<lambda>i. payload (int i)) [0..<n]"

text \<open>C integer division truncates towards zero; \<open>%\<close> is its remainder.\<close>

definition c_div :: "int \<Rightarrow> int \<Rightarrow> int" where
  "c_div a b = sgn a * sgn b * (\<bar>a\<bar> div \<bar>b\<bar>)"

definition c_rem :: "int \<Rightarrow> int \<Rightarrow> int" where
  "c_rem a b = a - b * c_div a b"

definition V3_PAYLOAD_NIBBLES :: nat where "V3_PAYLOAD_NIBBLES = 15"
definition V3_TX_INTERVAL_SECS :: u32 where "V3_TX_INTERVAL_SECS = 53"
definition V3_TX_BYTES :: nat where "V3_TX_BYTES = 13"
definition V3_PULSE_LENGHT_US :: u32 where "V3_PULSE_LENGHT_US = 488"
definition V3_CHANNEL :: int where "V3_CHANNEL = 1"

section \<open>The two checksums\<close>

subsection \<open>\<open>crc8_checksum_v3\<close>\<close>

text \<open>The body of the inner loop: one shift of the CRC register, polynomial 0x07.\<close>

definition crc8_round :: "u8 \<Rightarrow> u8" where
  "crc8_round crc = (if crc AND 0x80 \<noteq> 0 then push_bit 1 crc XOR 0x07 else push_bit 1 crc)"

text \<open>\<open>for (uint8_t j = 0; j < 4; j++)\<close>\<close>

function crc8_inner :: "u8 \<Rightarrow> u8 \<Rightarrow> u8" where
  "crc8_inner j crc = (if j < 4 then crc8_inner (j + 1) (crc8_round crc) else crc)"
  by pat_completeness auto
termination
  apply (relation "measure (\<lambda>(j, crc). 4 - unat j)")
   apply simp
  apply (simp add: word_less_nat_alt unat_word_ariths)
  done

text \<open>
  \<open>for (uint8_t i = 7; i <= (payloadNibbles + 7); i++)\<close>. The comparison is made on
  \<open>int\<close>, the counter is 8 bits wide and wraps from 255 to 0: for a bound of 255 or more the
  loop never ends, which the value \<open>None\<close> stands for.
\<close>

partial_function (option) crc8_loop :: "memory \<Rightarrow> u8 \<Rightarrow> u8 \<Rightarrow> u8 \<Rightarrow> u8 option" where
  "crc8_loop payload payloadNibbles i crc =
     (if uint i \<le> uint payloadNibbles + 7 then
        crc8_loop payload payloadNibbles (i + 1)
          (crc8_inner 0
            (if uint i < uint payloadNibbles + 7 then
               (if uint i mod 2 = 0 then crc XOR drop_bit 4 (payload (uint i div 2))
                else crc XOR (payload (uint i div 2) AND 0x0F))
             else crc))
      else Some crc)"

declare crc8_loop.simps [code]

definition crc8_checksum_v3 :: "memory \<Rightarrow> u8 \<Rightarrow> u8 option" where
  "crc8_checksum_v3 payload payloadNibbles =
     (case crc8_loop payload payloadNibbles 7 0x00 of
        None \<Rightarrow> None
      | Some crc \<Rightarrow> Some (push_bit 4 (crc AND 0x0F) OR drop_bit 4 (crc AND 0xF0)))"

subsection \<open>\<open>oregon_checksum_v3\<close>\<close>

text \<open>
  \<open>for (uint8_t i = 4; i < ((28 + payloadNibbles*4) / 8); i++)\<close>. \<open>payloadNibbles\<close> is a C
  \<open>int\<close>, taken here as a mathematical integer: the 16-bit \<open>int\<close> of the target computes
  \<open>28 + payloadNibbles*4\<close> without overflow for every count between -8192 and 8184. The counter
  is 8 bits wide, so a bound above 255 is never reached.
\<close>

partial_function (option) oregon_loop :: "memory \<Rightarrow> int \<Rightarrow> u8 \<Rightarrow> u8 \<Rightarrow> u8 option" where
  "oregon_loop payload payloadNibbles i checksum =
     (if uint i < c_div (28 + payloadNibbles * 4) 8 then
        oregon_loop payload payloadNibbles (i + 1)
          (checksum + (drop_bit 4 (payload (uint i)) + (payload (uint i) AND 0xF)))
      else Some checksum)"

declare oregon_loop.simps [code]

definition oregon_checksum_v3 :: "memory \<Rightarrow> int \<Rightarrow> u8 option" where
  "oregon_checksum_v3 payload payloadNibbles =
     (case oregon_loop payload payloadNibbles 4 (payload 3 AND 0xF) of
        None \<Rightarrow> None
      | Some checksum \<Rightarrow>
          (let checksum' =
                 (if c_rem payloadNibbles 2 = 0
                  then checksum + drop_bit 4 (payload (c_div (28 + payloadNibbles * 4) 8))
                  else checksum)
           in Some (push_bit 4 (checksum' AND 0x0F) OR drop_bit 4 (checksum' AND 0xF0))))"

subsection \<open>The checksums as the specification words them\<close>

definition swap_nibbles :: "u8 \<Rightarrow> u8" where
  "swap_nibbles x = push_bit 4 (x AND 0x0F) OR drop_bit 4 x"

definition high_nibble :: "u8 \<Rightarrow> u8" where
  "high_nibble x = drop_bit 4 x"

definition low_nibble :: "u8 \<Rightarrow> u8" where
  "low_nibble x = x AND 0x0F"

text \<open>Nibble \<open>i\<close> of the buffer: the high nibble of byte \<open>i div 2\<close> for even \<open>i\<close>, the low one
  for odd \<open>i\<close>.\<close>

definition nibble_at :: "memory \<Rightarrow> nat \<Rightarrow> u8" where
  "nibble_at payload i =
     (if even i then high_nibble (payload (int (i div 2))) else low_nibble (payload (int (i div 2))))"

text \<open>One bit of a CRC-8 with polynomial 0x07: shift left, and XOR the polynomial in when
  the bit shifted out was set.\<close>

definition crc8_bit :: "u8 \<Rightarrow> u8" where
  "crc8_bit crc = (if bit crc 7 then push_bit 1 crc XOR 0x07 else push_bit 1 crc)"

text \<open>The reference CRC: indices 7 up to and including \<open>count + 7\<close>, the nibble XORed in
  below \<open>count + 7\<close>, four rounds at every index, the result's nibbles swapped.\<close>

definition crc8_step :: "memory \<Rightarrow> nat \<Rightarrow> u8 \<Rightarrow> nat \<Rightarrow> u8" where
  "crc8_step payload count crc i =
     (crc8_bit ^^ 4) (if i < count + 7 then crc XOR nibble_at payload i else crc)"

definition crc8_reference :: "memory \<Rightarrow> nat \<Rightarrow> u8" where
  "crc8_reference payload count =
     swap_nibbles (foldl (crc8_step payload count) 0 [7..<count + 8])"

text \<open>The simple checksum: the low nibble of the sync byte, both nibbles of every whole
  byte from byte 4 up to the 8-bit-aligned end of the window, and a closing half byte.
  \<open>extra\<close> says for which counts the half byte is added.\<close>

definition window_end :: "nat \<Rightarrow> nat" where
  "window_end count = (28 + count * 4) div 8"

definition nibble_sum :: "(nat \<Rightarrow> bool) \<Rightarrow> memory \<Rightarrow> nat \<Rightarrow> u8" where
  "nibble_sum extra payload count =
     low_nibble (payload 3)
     + sum_list (map (\<lambda>i. high_nibble (payload (int i)) + low_nibble (payload (int i)))
                     [4..<window_end count])
     + (if extra count then high_nibble (payload (int (window_end count))) else 0)"

text \<open>As the specification has it: the half byte is added when the count is odd.\<close>

definition simpleChecksum_spec :: "memory \<Rightarrow> nat \<Rightarrow> u8" where
  "simpleChecksum_spec payload count = swap_nibbles (nibble_sum odd payload count)"

text \<open>With the parity the other way round: the half byte is added when the count is even.\<close>

definition simpleChecksum_even :: "memory \<Rightarrow> nat \<Rightarrow> u8" where
  "simpleChecksum_even payload count = swap_nibbles (nibble_sum even payload count)"

section \<open>Floating point\<close>

text \<open>
  On the AVR target \<open>float\<close> and \<open>double\<close> are both IEEE 754 binary32. A finite value of
  the format is modelled as the rational it denotes, and an operation as the exact result
  rounded to the nearest value of the format, ties to even: 24 significant bits above the
  exponent -126, the fixed grid of the subnormal numbers below. Infinities and NaN are not
  modelled: every magnitude that occurs here is far below the largest finite value.
\<close>

text \<open>The exponent of the leading bit of a positive rational.\<close>

definition ilog2 :: "rat \<Rightarrow> int" where
  "ilog2 x = (let (p, q) = quotient_of x; e = bitlen p - bitlen q - 1
              in if 2 powi (e + 1) \<le> x then e + 1 else e)"

definition round_half_even :: "rat \<Rightarrow> int" where
  "round_half_even x =
     (let f = \<lfloor>x\<rfloor>; r = x - of_int f
      in if r < 1 / 2 then f else if 1 / 2 < r then f + 1 else if even f then f else f + 1)"

definition float32 :: "rat \<Rightarrow> rat" where
  "float32 x =
     (if x = 0 then 0
      else let u = 2 powi (max (ilog2 \<bar>x\<bar>) (- 126) - 23)
           in of_int (round_half_even (x / u)) * u)"

text \<open>Conversion of a floating value to an integer truncates towards zero.\<close>

definition c_trunc :: "rat \<Rightarrow> int" where
  "c_trunc x = (if 0 \<le> x then \<lfloor>x\<rfloor> else \<lceil>x\<rceil>)"

text \<open>To \<open>uint16_t\<close>: C leaves the conversion undefined when the truncated value does not
  fit, which is the value \<open>None\<close>.\<close>

definition float_to_u16 :: "rat \<Rightarrow> u16 option" where
  "float_to_u16 x =
     (if 0 \<le> c_trunc x \<and> c_trunc x < 65536 then Some (word_of_int (c_trunc x)) else None)"

section \<open>\<open>payload_thgn801\<close>\<close>

definition memset :: "memory \<Rightarrow> u8 \<Rightarrow> nat \<Rightarrow> memory" where
  "memset payload v n = (\<lambda>i. if 0 \<le> i \<and> i < int n then v else payload i)"

text \<open>
  The static buffer is the memory at offsets 0 to 12; the function returns the memory with
  the buffer filled in. \<open>abs\<close> is the Arduino macro \<open>((x)>0?(x):-(x))\<close>, applied to the
  floating product; \<open>10.001\<close> is a \<open>double\<close> literal.
\<close>

definition payload_thgn801 :: "memory \<Rightarrow> u8 \<Rightarrow> rat \<Rightarrow> u8 \<Rightarrow> memory option" where
  "payload_thgn801 mem rollingCode tempC hum =
     (let payload = memset mem 0 V3_TX_BYTES;
          payload = memset payload 0xFF 3;
          payload = payload(3 := 0xA0);
          payload = payload(3 := payload 3 OR 0x0F);
          payload = payload(4 := 0x82);
          payload = payload(5 := 0x40);
          payload = payload(5 := payload 5 OR (if V3_CHANNEL > 15 then 15 else word_of_int V3_CHANNEL));
          payload = payload(6 := rollingCode);
          payload = payload(7 := 0x00)
      in case float_to_u16 \<bar>float32 (tempC * float32 (10001 / 1000))\<bar> of
           None \<Rightarrow> None
         | Some t10 \<Rightarrow>
            (let payload = payload(7 := payload 7 OR ucast ((t10 mod 10) AND 0x0F));
                 payload = payload(8 := ucast (push_bit 4 ((t10 div 10) mod 10) OR ((t10 div 100) AND 0x0F)));
                 payload = payload(9 := (if tempC < 0 then 0x80 else 0));
                 payload = payload(9 := payload 9 OR ((hum mod 10) AND 0x0F));
                 payload = payload(10 := push_bit 4 ((hum div 10) mod 10))
             in case oregon_checksum_v3 payload (int V3_PAYLOAD_NIBBLES) of
                  None \<Rightarrow> None
                | Some checksum \<Rightarrow>
                   (let payload = payload(11 := checksum)
                    in case crc8_checksum_v3 payload (of_nat V3_PAYLOAD_NIBBLES) of
                         None \<Rightarrow> None
                       | Some crc \<Rightarrow> Some (payload(12 := crc)))))"

subsection \<open>Reading the digits back\<close>

text \<open>The temperature in tenths of a degree: three BCD digits in the low nibble of byte 7
  and the two nibbles of byte 8, negated when the top bit of byte 9 is set.\<close>

definition decode_temp10 :: "memory \<Rightarrow> int" where
  "decode_temp10 payload =
     (if bit (payload 9) 7 then - 1 else 1)
     * (100 * uint (low_nibble (payload 8)) + 10 * uint (high_nibble (payload 8))
        + uint (low_nibble (payload 7)))"

text \<open>The humidity: two BCD digits in the low nibble of byte 9 and the high nibble of
  byte 10.\<close>

definition decode_hum :: "memory \<Rightarrow> int" where
  "decode_hum payload = 10 * uint (high_nibble (payload 10)) + uint (low_nibble (payload 9))"

section \<open>The modulator\<close>

text \<open>
  What the sketch does to the outside world is a trace of calls: \<open>digitalWrite\<close> with pin
  and level, \<open>delayMicroseconds\<close> with the value of its argument as a 32-bit unsigned
  number, which is how the caller computes it. (The parameter of the Arduino core on the
  Uno is a 16-bit \<open>unsigned int\<close>; the core is not part of the sketch.)
\<close>

datatype event = DigitalWrite nat bool | DelayMicroseconds u32

definition RF433_TX_PIN :: nat where "RF433_TX_PIN = 6"
definition LED_BUILTIN :: nat where "LED_BUILTIN = 13"
definition V3_PULSE_SHORTEN_US :: rat where "V3_PULSE_SHORTEN_US = 134"
definition V3_PULSE_TUNING :: rat where "V3_PULSE_TUNING = float32 (11 / 10)"

text \<open>\<open>(V3_PULSE_LENGHT_US * V3_PULSE_TUNING) - V3_PULSE_SHORTEN_US\<close>, a \<open>double\<close>,
  truncated where it is passed to \<open>delayMicroseconds\<close>.\<close>

definition pulse_on_us :: u32 where
  "pulse_on_us =
     word_of_int (c_trunc (float32 (float32 (of_int (uint V3_PULSE_LENGHT_US) * V3_PULSE_TUNING)
                                    - V3_PULSE_SHORTEN_US)))"

text \<open>
  The state the modulator keeps and changes: its static \<open>txMicros\<close>, initialised from
  \<open>micros()\<close> by the first call only; the number of calls of \<open>micros()\<close> made so far
  (the clock is a function from that number to the value returned); and the trace.
\<close>

record mod_state =
  txMicros :: u32
  txMicros_init :: bool
  reads :: nat
  trace :: "event list"

definition emit :: "event list \<Rightarrow> mod_state \<Rightarrow> mod_state" where
  "emit es s = s\<lparr>trace := trace s @ es\<rparr>"

text \<open>One iteration of the loop over the bits. Both operands of \<open>txMicros - micros()\<close>
  are unsigned, so is the difference that is compared with 0.\<close>

definition encode_step :: "(nat \<Rightarrow> u32) \<Rightarrow> u8 \<Rightarrow> u8 \<times> mod_state \<Rightarrow> u8 \<times> mod_state" where
  "encode_step micros txByte st =
     (let bitMask = fst st; s = snd st;
          t = txMicros s + V3_PULSE_LENGHT_US * 2;
          d = (if t - micros (reads s) < 0
               then (t - micros (reads s + 1)) * (- 1)
               else t - micros (reads s + 1));
          bitMask = (if bitMask = 0 then 0x10
                     else if bitMask = 0x80 then 0x01
                     else push_bit 1 bitMask);
          level = (txByte AND bitMask \<ge> 1)
      in (bitMask,
          s\<lparr>txMicros := t, reads := reads s + 2,
            trace := trace s @ [DelayMicroseconds d,
                                DigitalWrite RF433_TX_PIN level,
                                DelayMicroseconds pulse_on_us,
                                DigitalWrite RF433_TX_PIN (\<not> level)]\<rparr>))"

text \<open>\<open>for (uint8_t i = 0; i < 8; i++)\<close>\<close>

function encode_loop :: "(nat \<Rightarrow> u32) \<Rightarrow> u8 \<Rightarrow> u8 \<Rightarrow> u8 \<times> mod_state \<Rightarrow> u8 \<times> mod_state" where
  "encode_loop micros txByte i st =
     (if i < 8 then encode_loop micros txByte (i + 1) (encode_step micros txByte st) else st)"
  by pat_completeness auto
termination
  apply (relation "measure (\<lambda>(micros, txByte, i, st). 8 - unat i)")
   apply simp
  apply (simp add: word_less_nat_alt unat_word_ariths)
  done

definition manchester_encode_v3 :: "(nat \<Rightarrow> u32) \<Rightarrow> mod_state \<Rightarrow> u8 \<Rightarrow> mod_state" where
  "manchester_encode_v3 micros s txByte =
     (let s = (if txMicros_init s then s
               else s\<lparr>txMicros := micros (reads s), txMicros_init := True, reads := reads s + 1\<rparr>)
      in snd (encode_loop micros txByte 0 (0, s)))"

text \<open>\<open>for (i = 0; i < len; i++) manchester_encode_v3(payload[i]);\<close> The counter is
  returned: the code reads it after the loop.\<close>

function send_loop :: "(nat \<Rightarrow> u32) \<Rightarrow> memory \<Rightarrow> u8 \<Rightarrow> u8 \<Rightarrow> mod_state \<Rightarrow> u8 \<times> mod_state" where
  "send_loop micros payload len i s =
     (if i < len
      then send_loop micros payload len (i + 1) (manchester_encode_v3 micros s (payload (uint i)))
      else (i, s))"
  by pat_completeness auto
termination
proof (relation "measure (\<lambda>(micros, payload, len, i, s). unat len - unat i)", goal_cases)
  case 1
  show ?case by simp
next
  case (2 micros payload len i s)
  then have lt: "unat i < unat len" by (simp add: word_less_nat_alt)
  have "unat len < 256" using unsigned_less[of len, where 'a = nat] by simp
  with lt have "unat (i + 1) = unat i + 1" by (simp add: unat_word_ariths)
  with lt show ?case by simp
qed

text \<open>The diagnostic output on the serial line is left out.\<close>

definition send_data_v3 :: "(nat \<Rightarrow> u32) \<Rightarrow> memory \<Rightarrow> u8 \<Rightarrow> mod_state \<Rightarrow> mod_state" where
  "send_data_v3 micros payload len s =
     (let s = emit [DigitalWrite RF433_TX_PIN False] s;
          r = send_loop micros payload len 0 s;
          i = fst r; s = snd r;
          s = (if payload (uint i) AND 0x08 = 0
               then emit [DelayMicroseconds V3_PULSE_LENGHT_US] s else s)
      in emit [DigitalWrite RF433_TX_PIN False] s)"

subsection \<open>Reading a trace as a receiver does\<close>

text \<open>The levels written to the transmitter pin, in order.\<close>

fun rf_levels :: "event list \<Rightarrow> bool list" where
  "rf_levels [] = []"
| "rf_levels (DigitalWrite pin level # es) =
     (if pin = RF433_TX_PIN then level # rf_levels es else rf_levels es)"
| "rf_levels (DelayMicroseconds d # es) = rf_levels es"

text \<open>A bit cell is two levels: on then off is a 1, off then on is a 0, anything else is
  not Manchester code.\<close>

fun decode_cells :: "bool list \<Rightarrow> bool list option" where
  "decode_cells [] = Some []"
| "decode_cells [a] = None"
| "decode_cells (a # b # ls) =
     (if a = b then None else map_option ((#) a) (decode_cells ls))"

text \<open>Eight bits make a byte, the high nibble first, each nibble from its lowest bit.\<close>

definition bit_val :: "bool \<Rightarrow> nat \<Rightarrow> u8" where
  "bit_val b n = (if b then push_bit n 1 else 0)"

fun decode_bytes :: "bool list \<Rightarrow> u8 list option" where
  "decode_bytes [] = Some []"
| "decode_bytes (b4 # b5 # b6 # b7 # b0 # b1 # b2 # b3 # bs) =
     map_option ((#) (bit_val b0 0 OR bit_val b1 1 OR bit_val b2 2 OR bit_val b3 3 OR
                      bit_val b4 4 OR bit_val b5 5 OR bit_val b6 6 OR bit_val b7 7))
                (decode_bytes bs)"
| "decode_bytes bs = None"

definition manchester_decode :: "event list \<Rightarrow> u8 list option" where
  "manchester_decode es =
     (case decode_cells (rf_levels es) of None \<Rightarrow> None | Some bits \<Rightarrow> decode_bytes bits)"

text \<open>The bit cells of one byte as the specification orders them: bits 4, 5, 6, 7, then
  bits 0, 1, 2, 3, a set bit as on then off.\<close>

definition byte_cells :: "u8 \<Rightarrow> bool list" where
  "byte_cells b = concat (map (\<lambda>n. [bit b n, \<not> bit b n]) [4, 5, 6, 7, 0, 1, 2, 3])"

text \<open>The events a run has added to a trace.\<close>

definition added :: "mod_state \<Rightarrow> mod_state \<Rightarrow> event list" where
  "added s s' = drop (length (trace s)) (trace s')"

text \<open>The transmitter pin in time: for every delay of a trace, the level the pin has
  while it lasts and its length. The first argument is the level before the trace.\<close>

fun timeline :: "bool \<Rightarrow> event list \<Rightarrow> (bool \<times> u32) list" where
  "timeline l [] = []"
| "timeline l (DigitalWrite pin level # es) =
     timeline (if pin = RF433_TX_PIN then level else l) es"
| "timeline l (DelayMicroseconds d # es) = (l, d) # timeline l es"

text \<open>The modulator before its first call, and two clocks: one that stands still, one
  that reads 0 at the first call, which initialises \<open>txMicros\<close>, and 977 microseconds at
  every later call.\<close>

definition modulator_init :: mod_state where
  "modulator_init = \<lparr>txMicros = 0, txMicros_init = False, reads = 0, trace = []\<rparr>"

definition still_clock :: "nat \<Rightarrow> u32" where
  "still_clock n = 0"

definition late_clock :: "nat \<Rightarrow> u32" where
  "late_clock n = (if n = 0 then 0 else 977)"

section \<open>The scheduler\<close>

text \<open>
  The static and global variables of the sketch, the static buffer of
  \<open>payload_thgn801\<close> with the memory around it, and the modulator.
\<close>

record sched_state =
  seconds :: u32
  lastMillis :: u32
  lastTX :: u32
  tx_pending :: bool
  t_temp :: rat
  t_hum :: u8
  rcode :: u8
  buf :: memory
  modulator :: mod_state

text \<open>The initialisers; \<open>setup()\<close> draws the rolling code.\<close>

definition initial_state :: "u8 \<Rightarrow> memory \<Rightarrow> sched_state" where
  "initial_state r m =
     \<lparr>seconds = 0, lastMillis = 0, lastTX = 0, tx_pending = True,
      t_temp = float32 (- 3 / 2), t_hum = 20, rcode = r, buf = m,
      modulator = modulator_init\<rparr>"

text \<open>The first \<open>if\<close> of \<open>loop()\<close>. \<open>now\<close> is what \<open>millis()\<close> returns in the condition,
  \<open>now'\<close> what it returns in the assignment.\<close>

definition loop_tick :: "u32 \<Rightarrow> u32 \<Rightarrow> sched_state \<Rightarrow> sched_state" where
  "loop_tick now now' s =
     (if now - lastMillis s > 1000
      then s\<lparr>modulator := emit [DigitalWrite LED_BUILTIN False] (modulator s),
             lastMillis := now', seconds := seconds s + 1, tx_pending := True\<rparr>
      else s)"

text \<open>The second \<open>if\<close>, with \<open>DEBUG_LASTTX\<close> and \<open>DEBUG_INC\<close> defined as in the sketch.
  \<open>t_temp += 0.1\<close> adds a \<open>double\<close> literal and stores a \<open>float\<close>.\<close>

definition loop_transmit :: "(nat \<Rightarrow> u32) \<Rightarrow> u32 \<Rightarrow> sched_state \<Rightarrow> sched_state option" where
  "loop_transmit micros now s =
     (if seconds s mod V3_TX_INTERVAL_SECS = 0 \<and> tx_pending s then
        (let s = s\<lparr>tx_pending := False,
                    modulator := emit [DigitalWrite LED_BUILTIN True] (modulator s)\<rparr>;
             s = (if lastTX s > 0 then s\<lparr>lastTX := now\<rparr> else s)
         in case payload_thgn801 (buf s) (rcode s) (t_temp s) (t_hum s) of
              None \<Rightarrow> None
            | Some payload \<Rightarrow>
               (let s = s\<lparr>buf := payload,
                           modulator := send_data_v3 micros payload (of_nat V3_TX_BYTES) (modulator s)\<rparr>;
                    s = s\<lparr>t_temp := float32 (t_temp s + float32 (1 / 10))\<rparr>;
                    s = (if t_temp s > 45 then s\<lparr>t_temp := 19\<rparr> else s);
                    s = s\<lparr>t_hum := t_hum s + 1\<rparr>;
                    s = (if t_hum s > 95 then s\<lparr>t_hum := 30\<rparr> else s)
                in Some s))
      else Some s)"

definition loop :: "(nat \<Rightarrow> u32) \<Rightarrow> u32 \<Rightarrow> u32 \<Rightarrow> u32 \<Rightarrow> sched_state \<Rightarrow> sched_state option" where
  "loop micros now now' now'' s = loop_transmit micros now'' (loop_tick now now' s)"

section \<open>Verification of the checksums\<close>

subsection \<open>The loops as folds\<close>

lemma crc8_round_bit: "crc8_round c = crc8_bit c"
proof -
  have "(0x80::u8) = 2 ^ 7" by simp
  then have "(c AND 0x80 = 0) = (\<not> bit c 7)"
    by (simp only: and_exp_eq_0_iff_not_bit)
  then show ?thesis by (simp add: crc8_round_def crc8_bit_def)
qed

lemma crc8_inner_rounds: "crc8_inner 0 c = (crc8_bit ^^ 4) c"
proof -
  have "crc8_inner 0 c = crc8_round (crc8_round (crc8_round (crc8_round c)))"
    by simp
  then show ?thesis by (simp add: crc8_round_bit numeral_eq_Suc)
qed

lemma crc8_loop_fold:
  assumes "unat n \<le> 247" "unat i \<le> unat n + 8"
  shows "crc8_loop p n i c = Some (foldl (crc8_step p (unat n)) c [unat i..<unat n + 8])"
  using assms
proof (induction "unat n + 8 - unat i" arbitrary: i c)
  case 0
  then have eq: "unat i = unat n + 8" by simp
  have "\<not> uint i \<le> uint n + 7" using eq uint_nat[of i] uint_nat[of n] by linarith
  then show ?case using eq by (subst crc8_loop.simps) simp
next
  case (Suc k)
  then have lt: "unat i < unat n + 8" by linarith
  with Suc.prems have i255: "unat i < 255" by linarith
  have ui: "unat (i + 1) = unat i + 1"
    using i255 by (simp add: unat_word_ariths)
  have IH: "crc8_loop p n (i + 1) c' = Some (foldl (crc8_step p (unat n)) c' [Suc (unat i)..<unat n + 8])" for c'
    using Suc.hyps(1)[of "i + 1" c'] Suc.hyps(2) Suc.prems lt ui by simp
  have cond: "uint i \<le> uint n + 7" using lt uint_nat[of i] uint_nat[of n] by linarith
  have c2: "(uint i < uint n + 7) = (unat i < unat n + 7)" using uint_nat[of i] uint_nat[of n] by linarith
  have par: "(uint i mod 2 = 0) = even (unat i)" using uint_nat[of i] by presburger
  have idx: "uint i div 2 = int (unat i div 2)" using uint_nat[of i] by (metis of_nat_numeral zdiv_int)
  show ?case
    apply (subst crc8_loop.simps)
    apply (simp only: cond if_True IH)
    apply (subst upt_conv_Cons[OF lt])
    apply (simp only: foldl_Cons crc8_step_def crc8_inner_rounds c2 par idx nibble_at_def high_nibble_def low_nibble_def)
    apply (simp del: crc8_inner.simps)
    done
qed

lemma crc8_loop_diverges:
  assumes "crc8_loop p n i c = Some y"
  shows "unat n < 248"
proof (rule crc8_loop.raw_induct[where P = "\<lambda>p n i c y. unat n < 248", OF _ assms])
  fix f :: "memory \<Rightarrow> u8 \<Rightarrow> u8 \<Rightarrow> u8 \<Rightarrow> u8 option" and p n i c y
  assume IH: "\<And>p n i c y. f p n i c = Some y \<Longrightarrow> unat n < 248"
    and step: "(if uint i \<le> uint n + 7
      then f p n (i + 1)
            (crc8_inner 0
              (if uint i < uint n + 7
               then if uint i mod 2 = 0
                    then c XOR drop_bit 4 (p (uint i div 2))
                    else c XOR p (uint i div 2) AND 15
               else c))
      else Some c) = Some y"
  show "unat n < 248"
  proof (cases "uint i \<le> uint n + 7")
    case True
    with step IH show ?thesis by (simp only: if_True)
  next
    case False
    have "unat i < 256" using unsigned_less[of i, where 'a = nat] by simp
    with False show ?thesis using uint_nat[of i] uint_nat[of n] by linarith
  qed
qed

lemma m15: "(0x0F::u8) = mask 4" by (simp add: mask_eq_exp_minus_1)
lemma m240: "(0xF0::u8) = push_bit 4 (mask 4)" by (simp add: mask_eq_exp_minus_1)

lemma drop_and_240: "drop_bit 4 (x AND 0xF0) = drop_bit 4 x" for x :: u8
  unfolding m240
  apply (rule bit_word_eqI)
  apply (simp add: bit_and_iff bit_mask_iff bit_drop_bit_eq bit_push_bit_iff)
  using bit_imp_le_length apply fastforce
  done

lemma swap_nibbles_code:
  "push_bit 4 (x AND 0x0F) OR drop_bit 4 (x AND 0xF0) = swap_nibbles x" for x :: u8
  by (simp only: drop_and_240 swap_nibbles_def)

lemma crc8_checksum_v3_reference:
  assumes "unat n \<le> 247"
  shows "crc8_checksum_v3 p n = Some (crc8_reference p (unat n))"
proof -
  have "unat (7::u8) \<le> unat n + 8" by simp
  from crc8_loop_fold[OF assms this, of p 0]
  show ?thesis
    by (simp only: crc8_checksum_v3_def crc8_reference_def swap_nibbles_code option.case unat_numeral)
       simp
qed

lemma c_div_nonneg: "c_div (int a) (int b) = int (a div b)"
  by (cases "a = 0"; cases "b = 0") (simp_all add: c_div_def zdiv_int)

lemma window_end_c_div: "c_div (28 + int count * 4) 8 = int (window_end count)"
proof -
  have "28 + int count * 4 = int (28 + count * 4)" by simp
  moreover have "(8::int) = int 8" by simp
  ultimately show ?thesis unfolding window_end_def by (metis c_div_nonneg)
qed

lemma c_rem_even: "(c_rem (int count) 2 = 0) = even count"
proof -
  have "c_div (int count) 2 = int (count div 2)"
    using c_div_nonneg[of count 2] by simp
  then show ?thesis unfolding c_rem_def by presburger
qed

lemma window_end_bound: "count \<le> 504 \<Longrightarrow> window_end count \<le> 255"
  unfolding window_end_def by linarith

lemma oregon_loop_sum:
  assumes "count \<le> 504"
  shows "oregon_loop p (int count) i s =
           Some (s + sum_list (map (\<lambda>i. high_nibble (p (int i)) + low_nibble (p (int i)))
                                  [unat i..<window_end count]))"
proof (induction "window_end count - unat i" arbitrary: i s)
  case 0
  then have ge: "window_end count \<le> unat i" by simp
  have "\<not> uint i < int (window_end count)" using ge uint_nat[of i] by linarith
  then show ?case using ge by (subst oregon_loop.simps) (simp add: window_end_c_div)
next
  case (Suc k)
  then have lt: "unat i < window_end count" by linarith
  with window_end_bound[OF assms(1)] have i255: "unat i < 255" by linarith
  have ui: "unat (i + 1) = unat i + 1"
    using i255 by (simp add: unat_word_ariths)
  have IH: "oregon_loop p (int count) (i + 1) s' =
      Some (s' + sum_list (map (\<lambda>i. high_nibble (p (int i)) + low_nibble (p (int i)))
                                  [Suc (unat i)..<window_end count]))" for s'
    using Suc.hyps(1)[of "i + 1" s'] Suc.hyps(2) ui by simp
  have cond: "uint i < c_div (28 + int count * 4) 8"
    using lt uint_nat[of i] unfolding window_end_c_div by linarith
  show ?case
    apply (subst oregon_loop.simps)
    apply (simp only: cond if_True IH)
    apply (subst upt_conv_Cons[OF lt])
    apply (simp only: list.map sum_list.Cons high_nibble_def low_nibble_def uint_nat[of i] add.assoc)
    done
qed

lemma oregon_checksum_v3_even:
  assumes "count \<le> 504"
  shows "oregon_checksum_v3 p (int count) = Some (simpleChecksum_even p count)"
proof -
  have u4: "unat (4::u8) = 4" by simp
  note loop = oregon_loop_sum[OF assms, of p 4 "p 3 AND 0xF", unfolded u4]
  show ?thesis
  proof (cases "even count")
    case True
    then show ?thesis
      by (simp only: oregon_checksum_v3_def loop option.case Let_def c_rem_even
            window_end_c_div swap_nibbles_code simpleChecksum_even_def nibble_sum_def
            high_nibble_def low_nibble_def if_True)
  next
    case False
    then show ?thesis
      by (simp only: oregon_checksum_v3_def loop option.case Let_def c_rem_even
            window_end_c_div swap_nibbles_code simpleChecksum_even_def nibble_sum_def
            high_nibble_def low_nibble_def if_False add_0_right)
  qed
qed

subsection \<open>The simple checksum\<close>

lemma oregon_15:
  "oregon_checksum_v3 p 15 = Some (simpleChecksum_even p 15)"
  using oregon_checksum_v3_even[of 15 p] by simp

text \<open>
  Claim C2, as the code has it. For every memory and every count from 0 to 504 (beyond which
  the 8-bit counter cannot reach the bound), \<open>oregon_checksum_v3\<close> returns: the low nibble
  of byte 3, plus both nibbles of the bytes from 4 up to the 8-bit-aligned end of the
  window, plus the high nibble of the byte that follows exactly when the count is even, the
  two nibbles of that sum swapped.
\<close>

theorem C2_simple_checksum_even:
  "count \<le> 504 \<Longrightarrow>
     oregon_checksum_v3 payload (int count) = Some (simpleChecksum_even payload count)"
proof -
  assume le: "count \<le> 504"
  have u4: "unat (4::u8) = 4" by simp
  have loop: "oregon_loop payload (int count) 4 (payload 3 AND 0xF) =
     Some ((payload 3 AND 0xF) +
           sum_list (map (\<lambda>i. high_nibble (payload (int i)) + low_nibble (payload (int i)))
                         [4..<window_end count]))"
    using oregon_loop_sum[OF le, of payload 4 "payload 3 AND 0xF"] unfolding u4 .
  show ?thesis
  proof (cases "even count")
    case True
    then show ?thesis
      by (simp only: oregon_checksum_v3_def loop option.case Let_def c_rem_even
            window_end_c_div swap_nibbles_code simpleChecksum_even_def nibble_sum_def
            high_nibble_def low_nibble_def if_True)
  next
    case False
    then show ?thesis
      by (simp only: oregon_checksum_v3_def loop option.case Let_def c_rem_even
            window_end_c_div swap_nibbles_code simpleChecksum_even_def nibble_sum_def
            high_nibble_def low_nibble_def if_False add_0_right)
  qed
qed

text \<open>The theorem at the count the sketch uses, 15.\<close>

theorem C2_simple_checksum_even_witness:
  "(15::nat) \<le> 504 \<and>
   oregon_checksum_v3 (buffer [0xFF, 0xFF, 0xFF, 0xAF, 0x82, 0x41, 0x00, 0x05, 0x10, 0x80, 0x20, 0x00, 0x00]) (int 15)
     = Some (simpleChecksum_even (buffer [0xFF, 0xFF, 0xFF, 0xAF, 0x82, 0x41, 0x00, 0x05, 0x10, 0x80, 0x20, 0x00, 0x00]) 15)"
  using C2_simple_checksum_even [of 15 "buffer [0xFF, 0xFF, 0xFF, 0xAF, 0x82, 0x41, 0x00, 0x05, 0x10, 0x80, 0x20, 0x00, 0x00]"]
  by simp

text \<open>
  Claim C2 as stated adds the closing half byte when the count is odd. At count 15 and a
  buffer whose byte 11 has a high nibble of 1 the code returns 0, the checksum of the claim
  is 0x10.
\<close>

theorem C2_odd_count_counterexample:
  "oregon_checksum_v3 (buffer [0, 0, 0, 0, 0, 0, 0, 0, 0, 0, 0, 0x10, 0]) 15
     \<noteq> Some (simpleChecksum_spec (buffer [0, 0, 0, 0, 0, 0, 0, 0, 0, 0, 0, 0x10, 0]) 15)"
  by (simp add: oregon_15 simpleChecksum_even_def simpleChecksum_spec_def nibble_sum_def
        window_end_def buffer_def swap_nibbles_def high_nibble_def low_nibble_def)

subsection \<open>The CRC\<close>

text \<open>
  Claim C3, for the counts at which the loop ends. For every memory and every count from 0
  to 247, \<open>crc8_checksum_v3\<close> returns the value of the reference: a CRC-8 with polynomial
  0x07 and initial value 0 over the nibble indices 7 to count + 7, the nibble XORed in at
  the indices below count + 7, four shift rounds at each index, the nibbles of the result
  swapped.
\<close>

theorem C3_crc8_reference:
  "unat count \<le> 247 \<Longrightarrow>
     crc8_checksum_v3 payload count = Some (crc8_reference payload (unat count))"
proof -
  assume le: "unat count \<le> 247"
  have start: "unat (7::u8) \<le> unat count + 8" by simp
  have "crc8_loop payload count 7 0
          = Some (foldl (crc8_step payload (unat count)) 0 [unat (7::u8)..<unat count + 8])"
    by (rule crc8_loop_fold[OF le start])
  then have "crc8_loop payload count 7 0
          = Some (foldl (crc8_step payload (unat count)) 0 [7..<unat count + 8])"
    by simp
  then show ?thesis
    by (simp only: crc8_checksum_v3_def crc8_reference_def swap_nibbles_code option.case)
qed

text \<open>The theorem at the count the sketch uses, 15.\<close>

theorem C3_crc8_reference_witness:
  "unat (15::u8) \<le> 247 \<and>
   crc8_checksum_v3 (buffer [0xFF, 0xFF, 0xFF, 0xAF, 0x82, 0x41, 0x00, 0x05, 0x10, 0x80, 0x20, 0xE2, 0x00]) 15
     = Some (crc8_reference (buffer [0xFF, 0xFF, 0xFF, 0xAF, 0x82, 0x41, 0x00, 0x05, 0x10, 0x80, 0x20, 0xE2, 0x00]) (unat (15::u8)))"
  using C3_crc8_reference [of 15 "buffer [0xFF, 0xFF, 0xFF, 0xAF, 0x82, 0x41, 0x00, 0x05, 0x10, 0x80, 0x20, 0xE2, 0x00]"]
  by simp

text \<open>
  Claim C3 as stated holds for every count. At count 248 the bound of the loop is 255, which
  the 8-bit counter never exceeds: the function does not return, while the reference has a
  value.
\<close>

theorem C3_crc8_never_returns:
  "crc8_checksum_v3 (buffer []) 248 \<noteq> Some (crc8_reference (buffer []) 248)"
proof -
  have "crc8_loop (buffer []) 248 7 0 = None"
  proof (cases "crc8_loop (buffer []) 248 7 0")
    case (Some y)
    from crc8_loop_diverges[OF this] show ?thesis by simp
  qed simp
  then show ?thesis by (simp add: crc8_checksum_v3_def)
qed

subsection \<open>The window of the checksums\<close>

lemma crc8_15: "crc8_checksum_v3 p 15 = Some (crc8_reference p 15)"
  using crc8_checksum_v3_reference[of 15 p] by simp

lemma nibble_sum_window:
  assumes "low_nibble (m 3) = low_nibble (m' 3)" "\<forall>i\<in>{4..10}. m i = m' i"
  shows "nibble_sum even m 15 = nibble_sum even m' 15"
proof -
  have "map (\<lambda>i. high_nibble (m (int i)) + low_nibble (m (int i))) [4..<11]
      = map (\<lambda>i. high_nibble (m' (int i)) + low_nibble (m' (int i))) [4..<11]"
  proof (rule map_cong[OF refl])
    fix i assume "i \<in> set [4..<11]"
    then have "int i \<in> {4..10}" by auto
    with assms(2) show "high_nibble (m (int i)) + low_nibble (m (int i))
        = high_nibble (m' (int i)) + low_nibble (m' (int i))" by simp
  qed
  moreover have "window_end 15 = 11" by (simp add: window_end_def)
  ultimately show ?thesis using assms(1) by (simp only: nibble_sum_def) simp
qed

lemma crc8_fold_window:
  assumes "\<forall>i\<in>{7..21}. nibble_at m i = nibble_at m' i"
  shows "foldl (crc8_step m 15) c [7..<23] = foldl (crc8_step m' 15) c [7..<23]"
proof (rule foldl_cong[OF refl refl])
  fix a i assume "i \<in> set [7..<23]"
  then have "i < 22 \<longrightarrow> i \<in> {7..21::nat}" by auto
  with assms show "crc8_step m 15 a i = crc8_step m' 15 a i"
    by (auto simp add: crc8_step_def)
qed

lemma ball_4_10: "(\<forall>i\<in>{4..10::int}. P i) = (P 4 \<and> P 5 \<and> P 6 \<and> P 7 \<and> P 8 \<and> P 9 \<and> P 10)"
proof -
  have "{4..10::int} = {4, 5, 6, 7, 8, 9, 10}" by auto
  then show ?thesis by simp
qed

lemma ball_7_21: "(\<forall>i\<in>{7..21::nat}. P i) = (\<forall>i\<in>set [7..<22]. P i)"
proof -
  have "{7..21::nat} = set [7..<22]" by (simp only: set_upt) auto
  then show ?thesis by (simp only:)
qed

text \<open>
  Claim C10. With count 15, two memories that agree on the low nibble of byte 3 and on the
  bytes 4 to 10 have the same simple checksum, and two memories that agree on the nibbles 7
  to 21 have the same CRC; both functions return. The preamble, the sync nibble and the
  bytes 11 and 12 are not part of either condition.
\<close>

theorem C10_checksum_window:
  "(low_nibble (m 3) = low_nibble (m' 3) \<and> (\<forall>i\<in>{4..10}. m i = m' i)
      \<longrightarrow> oregon_checksum_v3 m 15 = oregon_checksum_v3 m' 15 \<and> oregon_checksum_v3 m 15 \<noteq> None)
   \<and> ((\<forall>i\<in>{7..21}. nibble_at m i = nibble_at m' i)
      \<longrightarrow> crc8_checksum_v3 m 15 = crc8_checksum_v3 m' 15 \<and> crc8_checksum_v3 m 15 \<noteq> None)"
proof (intro conjI impI)
  assume a: "low_nibble (m 3) = low_nibble (m' 3) \<and> (\<forall>i\<in>{4..10}. m i = m' i)"
  then show "oregon_checksum_v3 m 15 = oregon_checksum_v3 m' 15"
    using nibble_sum_window[of m m'] by (simp add: oregon_15 simpleChecksum_even_def)
  show "oregon_checksum_v3 m 15 \<noteq> None" by (simp add: oregon_15)
next
  assume a: "\<forall>i\<in>{7..21}. nibble_at m i = nibble_at m' i"
  have "(15::nat) + 8 = 23" by simp
  then show "crc8_checksum_v3 m 15 = crc8_checksum_v3 m' 15"
    using crc8_fold_window[OF a, of 0] by (simp only: crc8_15 crc8_reference_def)
  show "crc8_checksum_v3 m 15 \<noteq> None" by (simp add: crc8_15)
qed

text \<open>Two buffers that differ in the bytes 0 to 2, the sync nibble and the bytes 11 and 12.\<close>

theorem C10_checksum_window_witness:
  "low_nibble (buffer [0xFF, 0xFF, 0xFF, 0xAF, 0x82, 0x41, 0x00, 0x05, 0x10, 0x80, 0x20, 0x00, 0x00] 3)
      = low_nibble (buffer [0x00, 0x12, 0x34, 0x5F, 0x82, 0x41, 0x00, 0x05, 0x10, 0x80, 0x20, 0xE2, 0x73] 3)
   \<and> map (buffer [0xFF, 0xFF, 0xFF, 0xAF, 0x82, 0x41, 0x00, 0x05, 0x10, 0x80, 0x20, 0x00, 0x00]) [4, 5, 6, 7, 8, 9, 10]
      = map (buffer [0x00, 0x12, 0x34, 0x5F, 0x82, 0x41, 0x00, 0x05, 0x10, 0x80, 0x20, 0xE2, 0x73]) [4, 5, 6, 7, 8, 9, 10]
   \<and> map (nibble_at (buffer [0xFF, 0xFF, 0xFF, 0xAF, 0x82, 0x41, 0x00, 0x05, 0x10, 0x80, 0x20, 0x00, 0x00])) [7..<22]
      = map (nibble_at (buffer [0x00, 0x12, 0x34, 0x5F, 0x82, 0x41, 0x00, 0x05, 0x10, 0x80, 0x20, 0xE2, 0x73])) [7..<22]
   \<and> oregon_checksum_v3 (buffer [0xFF, 0xFF, 0xFF, 0xAF, 0x82, 0x41, 0x00, 0x05, 0x10, 0x80, 0x20, 0x00, 0x00]) 15
      = oregon_checksum_v3 (buffer [0x00, 0x12, 0x34, 0x5F, 0x82, 0x41, 0x00, 0x05, 0x10, 0x80, 0x20, 0xE2, 0x73]) 15
   \<and> oregon_checksum_v3 (buffer [0xFF, 0xFF, 0xFF, 0xAF, 0x82, 0x41, 0x00, 0x05, 0x10, 0x80, 0x20, 0x00, 0x00]) 15 \<noteq> None
   \<and> crc8_checksum_v3 (buffer [0xFF, 0xFF, 0xFF, 0xAF, 0x82, 0x41, 0x00, 0x05, 0x10, 0x80, 0x20, 0x00, 0x00]) 15
      = crc8_checksum_v3 (buffer [0x00, 0x12, 0x34, 0x5F, 0x82, 0x41, 0x00, 0x05, 0x10, 0x80, 0x20, 0xE2, 0x73]) 15
   \<and> crc8_checksum_v3 (buffer [0xFF, 0xFF, 0xFF, 0xAF, 0x82, 0x41, 0x00, 0x05, 0x10, 0x80, 0x20, 0x00, 0x00]) 15 \<noteq> None"
proof -
  let ?m = "buffer [0xFF, 0xFF, 0xFF, 0xAF, 0x82, 0x41, 0x00, 0x05, 0x10, 0x80, 0x20, 0x00, 0x00]"
  let ?m' = "buffer [0x00, 0x12, 0x34, 0x5F, 0x82, 0x41, 0x00, 0x05, 0x10, 0x80, 0x20, 0xE2, 0x73]"
  have h1: "low_nibble (?m 3) = low_nibble (?m' 3)"
    by (simp add: buffer_def low_nibble_def)
  have h2: "\<forall>i\<in>{4..10}. ?m i = ?m' i"
    by (simp add: ball_4_10 buffer_def)
  have h3: "\<forall>i\<in>{7..21}. nibble_at ?m i = nibble_at ?m' i"
    by (simp add: ball_7_21 nibble_at_def buffer_def low_nibble_def high_nibble_def)
  have l2: "map ?m [4, 5, 6, 7, 8, 9, 10] = map ?m' [4, 5, 6, 7, 8, 9, 10]"
    using h2 by (simp add: ball_4_10)
  have l3: "map (nibble_at ?m) [7..<22] = map (nibble_at ?m') [7..<22]"
    using h3 by (simp only: ball_7_21 map_eq_conv)
  from C10_checksum_window[of ?m ?m'] h1 h2 h3 l2 l3 show ?thesis by blast
qed

section \<open>Verification of the floating-point model\<close>

text \<open>\<open>ilog2\<close> is the exponent of the leading bit, and rounding changes a value by at
  most the 2 to the 24th part of its magnitude, or of the smallest normal number where the
  value is below it.\<close>

lemma ilog2_lower:
  assumes "0 < x"
  shows "2 powi (ilog2 x) \<le> x"
proof -
  obtain p q where pq: "quotient_of x = (p, q)" by (cases "quotient_of x")
  then have q: "0 < q" and x: "x = of_int p / of_int q"
    using quotient_of_denom_pos quotient_of_div by blast+
  with assms have p: "0 < p" by (simp add: zero_less_divide_iff)
  define e where "e = bitlen p - bitlen q - 1"
  have bp: "2 ^ nat (bitlen p - 1) \<le> p" and bq: "q < 2 ^ nat (bitlen q)"
    using bitlen_bounds[OF p] bitlen_bounds[OF q] by simp_all
  have bp1: "1 \<le> bitlen p" and bq1: "1 \<le> bitlen q"
    using p q by (simp_all add: bitlen_def floorlog_def)
  have "(2::rat) powi e = 2 powi (bitlen p - 1) / 2 powi (bitlen q)"
    unfolding e_def by (simp add: power_int_diff)
  also have "\<dots> = 2 ^ nat (bitlen p - 1) / 2 ^ nat (bitlen q)"
    using bp1 bq1 by (simp add: power_int_def)
  also have "\<dots> \<le> of_int p / 2 ^ nat (bitlen q)"
  proof -
    have "(2::rat) ^ nat (bitlen p - 1) \<le> of_int p"
      using bp by (metis of_int_le_iff of_int_numeral of_int_power)
    then show ?thesis by (simp add: divide_right_mono)
  qed
  also have "\<dots> \<le> of_int p / of_int q"
  proof -
    have "(of_int q :: rat) \<le> 2 ^ nat (bitlen q)"
      using bq by (metis less_imp_le of_int_le_iff of_int_numeral of_int_power)
    then show ?thesis using p q by (simp add: frac_le)
  qed
  finally have low: "2 powi e \<le> x" using x by simp
  show ?thesis
  proof (cases "2 powi (e + 1) \<le> x")
    case True
    then show ?thesis unfolding ilog2_def pq by (simp add: Let_def e_def)
  next
    case False
    then have "ilog2 x = e" unfolding ilog2_def pq by (simp add: Let_def e_def)
    with low show ?thesis by simp
  qed
qed

lemma ilog2_upper:
  assumes "0 < x"
  shows "x < 2 powi (ilog2 x + 1)"
proof -
  obtain p q where pq: "quotient_of x = (p, q)" by (cases "quotient_of x")
  then have q: "0 < q" and x: "x = of_int p / of_int q"
    using quotient_of_denom_pos quotient_of_div by blast+
  with assms have p: "0 < p" by (simp add: zero_less_divide_iff)
  define e where "e = bitlen p - bitlen q - 1"
  have bp: "p < 2 ^ nat (bitlen p)" and bq: "2 ^ nat (bitlen q - 1) \<le> q"
    using bitlen_bounds[OF p] bitlen_bounds[OF q] by simp_all
  have bp1: "1 \<le> bitlen p" and bq1: "1 \<le> bitlen q"
    using p q by (simp_all add: bitlen_def floorlog_def)
  have P: "(of_int p :: rat) < 2 ^ nat (bitlen p)"
    using bp by (metis of_int_less_iff of_int_numeral of_int_power)
  have Q: "(2::rat) ^ nat (bitlen q - 1) \<le> of_int q"
    using bq by (metis of_int_le_iff of_int_numeral of_int_power)
  have "x < 2 ^ nat (bitlen p) / of_int q"
    unfolding x using P q by (simp add: divide_strict_right_mono)
  also have "\<dots> \<le> 2 ^ nat (bitlen p) / 2 ^ nat (bitlen q - 1)"
    using Q by (simp add: frac_le)
  also have "\<dots> = 2 powi (bitlen p) / 2 powi (bitlen q - 1)"
    using bp1 bq1 by (simp add: power_int_def)
  also have "\<dots> = 2 powi (bitlen p - (bitlen q - 1))"
    by (rule power_int_diff[symmetric]) simp
  also have "bitlen p - (bitlen q - 1) = e + 2"
    unfolding e_def by simp
  finally have up: "x < 2 powi (e + 2)" .
  show ?thesis
  proof (cases "2 powi (e + 1) \<le> x")
    case True
    then have "ilog2 x = e + 1" unfolding ilog2_def pq by (simp add: Let_def e_def)
    with up show ?thesis by (simp add: add.commute add.left_commute)
  next
    case False
    then have "ilog2 x = e" unfolding ilog2_def pq by (simp add: Let_def e_def)
    with False show ?thesis by simp
  qed
qed

lemma round_half_even_error: "\<bar>of_int (round_half_even y) - y\<bar> \<le> 1 / 2"
proof -
  have "of_int \<lfloor>y\<rfloor> \<le> y" "y < of_int \<lfloor>y\<rfloor> + 1" by linarith+
  then show ?thesis unfolding round_half_even_def Let_def
    by (simp add: abs_if) linarith
qed

lemma float32_error: "\<bar>float32 x - x\<bar> \<le> max \<bar>x\<bar> (2 powi (- 126)) / 2 ^ 24"
proof (cases "x = 0")
  case True
  then show ?thesis by (simp add: float32_def)
next
  case False
  then have pos: "0 < \<bar>x\<bar>" by simp
  define e where "e = max (ilog2 \<bar>x\<bar>) (- 126)"
  define u :: rat where "u = 2 powi (e - 23)"
  have u: "0 < u" unfolding u_def by simp
  have e: "2 powi e \<le> max \<bar>x\<bar> (2 powi (- 126))"
    unfolding e_def using ilog2_lower[OF pos] by (simp add: max_def)
  have "float32 x = of_int (round_half_even (x / u)) * u"
    using False unfolding float32_def u_def e_def by (simp add: Let_def)
  then have "float32 x - x = (of_int (round_half_even (x / u)) - x / u) * u"
    using u by (simp add: algebra_simps)
  then have "\<bar>float32 x - x\<bar> = \<bar>of_int (round_half_even (x / u)) - x / u\<bar> * u"
    using u by (simp add: abs_mult)
  also have "\<dots> \<le> 1 / 2 * u"
    using round_half_even_error[of "x / u"] u by (simp add: mult_right_mono)
  also have "\<dots> = 2 powi e / 2 ^ 24"
    unfolding u_def by (simp add: power_int_diff)
  also have "\<dots> \<le> max \<bar>x\<bar> (2 powi (- 126)) / 2 ^ 24"
    using e by (simp add: divide_right_mono)
  finally show ?thesis .
qed

lemma float32_10001: "float32 (10001 / 1000) = 10486809 / 1048576"
  by code_simp

lemma float32_tenth: "float32 (1 / 10) = 13421773 / 134217728"
  by code_simp

lemma tiny: "(2::rat) powi (- 126) \<le> 1"
  by (simp add: power_int_def inverse_eq_divide power_le_one_iff)

lemma float32_abs_le:
  assumes "\<bar>x\<bar> \<le> b" "1 \<le> b"
  shows "\<bar>float32 x\<bar> \<le> b + b / 2 ^ 24"
proof -
  have "max \<bar>x\<bar> (2 powi (- 126)) \<le> b" using assms tiny by (simp add: max_def)
  then have "max \<bar>x\<bar> (2 powi (- 126)) / 2 ^ 24 \<le> b / 2 ^ 24" by (simp add: divide_right_mono)
  with float32_error[of x] have "\<bar>float32 x - x\<bar> \<le> b / 2 ^ 24" by linarith
  with assms(1) show ?thesis by linarith
qed

lemma float_to_u16_abs:
  assumes "\<bar>z\<bar> < 65536"
  shows "float_to_u16 \<bar>z\<bar> = Some (word_of_int \<lfloor>\<bar>z\<bar>\<rfloor>)"
proof -
  have "\<lfloor>\<bar>z\<bar>\<rfloor> < 65536" using assms by (simp add: floor_less_iff)
  moreover have "0 \<le> \<lfloor>\<bar>z\<bar>\<rfloor>" by simp
  ultimately show ?thesis by (simp add: float_to_u16_def c_trunc_def)
qed

lemma t10_defined:
  assumes "\<bar>tempC\<bar> \<le> 1000"
  shows "\<bar>float32 (tempC * float32 (10001 / 1000))\<bar> < 65536"
proof -
  have "\<bar>tempC * (10486809 / 1048576)\<bar> = \<bar>tempC\<bar> * (10486809 / 1048576)"
    by (simp add: abs_mult)
  also have "\<dots> \<le> 1000 * (10486809 / 1048576)"
    using assms by (simp add: mult_right_mono)
  also have "\<dots> \<le> 10002" by simp
  finally have "\<bar>tempC * (10486809 / 1048576)\<bar> \<le> 10002" .
  from float32_abs_le[OF this] show ?thesis unfolding float32_10001 by simp
qed

subsection \<open>The tenths of a temperature\<close>

text \<open>For a temperature that is the \<open>float\<close> nearest to k/10, at most three digits long, the
  product with 10.001, rounded and truncated, is the number of tenths: the bias of 0.001
  outweighs the two roundings.\<close>

lemma tiny10: "(2::rat) powi (- 126) \<le> 1 / 10"
proof -
  have "(1 / 2 :: rat) ^ 126 \<le> (1 / 2) ^ 4" by (rule power_decreasing) simp_all
  also have "\<dots> = 1 / 16" by (simp add: power_divide)
  finally show ?thesis by (simp add: power_int_def inverse_eq_divide)
qed

lemma float32_accuracy':
  assumes "1 / 10 \<le> \<bar>x\<bar>"
  shows "\<bar>x\<bar> * (1 - 1 / 2 ^ 24) \<le> \<bar>float32 x\<bar>" "\<bar>float32 x\<bar> \<le> \<bar>x\<bar> * (1 + 1 / 2 ^ 24)"
proof -
  from tiny10 assms have "max \<bar>x\<bar> (2 powi (- 126)) = \<bar>x\<bar>" by (simp add: max_def)
  with float32_error[of x] have e: "\<bar>float32 x - x\<bar> \<le> \<bar>x\<bar> / 2 ^ 24" by simp
  have "\<bar>x\<bar> - \<bar>float32 x - x\<bar> \<le> \<bar>float32 x\<bar>" "\<bar>float32 x\<bar> \<le> \<bar>x\<bar> + \<bar>float32 x - x\<bar>"
    by linarith+
  with e show "\<bar>x\<bar> * (1 - 1 / 2 ^ 24) \<le> \<bar>float32 x\<bar>" "\<bar>float32 x\<bar> \<le> \<bar>x\<bar> * (1 + 1 / 2 ^ 24)"
    by (simp_all add: algebra_simps)
qed

lemma tenths_sign:
  "(float32 (of_int k / 10) < 0) = (k < 0)"
proof (cases "k = 0")
  case True
  then show ?thesis by (simp add: float32_def)
next
  case False
  define x :: rat where "x = of_int k / 10"
  have "1 \<le> \<bar>of_int k :: rat\<bar>" using False by (simp add: Ints_nonzero_abs_ge1)
  then have x10: "1 / 10 \<le> \<bar>x\<bar>" unfolding x_def by simp
  from tiny10 x10 have "max \<bar>x\<bar> (2 powi (- 126)) = \<bar>x\<bar>" by (simp add: max_def)
  with float32_error[of x] have e: "\<bar>float32 x - x\<bar> \<le> \<bar>x\<bar> / 2 ^ 24" by simp
  have "\<bar>x\<bar> / 2 ^ 24 < \<bar>x\<bar>" using x10 by simp
  with e have "\<bar>float32 x - x\<bar> < \<bar>x\<bar>" by linarith
  then have "(float32 x < 0) = (x < 0)" by linarith
  then show ?thesis unfolding x_def by (simp add: divide_less_0_iff)
qed

lemma t10_tenths:
  assumes "\<bar>k\<bar> \<le> 999"
  shows "float_to_u16 \<bar>float32 (float32 (of_int k / 10) * float32 (10001 / 1000))\<bar>
           = Some (of_nat (nat \<bar>k\<bar>))"
proof (cases "k = 0")
  case True
  then show ?thesis by (simp add: float32_def float_to_u16_def c_trunc_def)
next
  case False
  define n :: rat where "n = of_int \<bar>k\<bar>"
  define x :: rat where "x = of_int k / 10"
  define c :: rat where "c = 10486809 / 1048576"
  define lo :: rat where "lo = 1 - 1 / 2 ^ 24"
  define hi :: rat where "hi = 1 + 1 / 2 ^ 24"
  define a where "a = float32 x"
  define f where "f = float32 (a * c)"
  have n1: "1 \<le> n" using False unfolding n_def by (simp add: Ints_nonzero_abs_ge1)
  have n999: "n \<le> 999" using assms unfolding n_def by (metis of_int_le_iff of_int_numeral)
  have ax: "\<bar>x\<bar> = n / 10" unfolding x_def n_def by simp
  have lo0: "0 \<le> lo" and hi0: "0 \<le> hi" and c0: "0 \<le> c" unfolding lo_def hi_def c_def by simp_all
  have x10: "1 / 10 \<le> \<bar>x\<bar>" using n1 ax by simp
  have a_lo: "\<bar>x\<bar> * lo \<le> \<bar>a\<bar>" and a_hi: "\<bar>a\<bar> \<le> \<bar>x\<bar> * hi"
    using float32_accuracy'[OF x10] unfolding a_def lo_def hi_def by simp_all
  have y_abs: "\<bar>a * c\<bar> = \<bar>a\<bar> * c" using c0 by (simp add: abs_mult)
  have y_lo: "\<bar>x\<bar> * lo * c \<le> \<bar>a * c\<bar>" unfolding y_abs using a_lo c0 by (rule mult_right_mono)
  have y_hi: "\<bar>a * c\<bar> \<le> \<bar>x\<bar> * hi * c" unfolding y_abs using a_hi c0 by (rule mult_right_mono)
  have "1 / 10 \<le> 1 / 10 * lo * c" unfolding lo_def c_def by simp
  also have "\<dots> \<le> \<bar>x\<bar> * lo * c"
    using x10 lo0 c0 by (intro mult_right_mono) simp_all
  finally have y10: "1 / 10 \<le> \<bar>a * c\<bar>" using y_lo by linarith
  have f_lo: "\<bar>a * c\<bar> * lo \<le> \<bar>f\<bar>" and f_hi: "\<bar>f\<bar> \<le> \<bar>a * c\<bar> * hi"
    using float32_accuracy'[OF y10] unfolding f_def lo_def hi_def by simp_all
  have "\<bar>x\<bar> * lo * c * lo \<le> \<bar>a * c\<bar> * lo" using y_lo lo0 by (rule mult_right_mono)
  moreover have "\<bar>x\<bar> * lo * c * lo = n * (lo * c * lo / 10)" unfolding ax by simp
  ultimately have low: "n * (lo * c * lo / 10) \<le> \<bar>f\<bar>" using f_lo by linarith
  have "\<bar>a * c\<bar> * hi \<le> \<bar>x\<bar> * hi * c * hi" using y_hi hi0 by (rule mult_right_mono)
  moreover have "\<bar>x\<bar> * hi * c * hi = n * (hi * c * hi / 10)" unfolding ax by simp
  ultimately have high: "\<bar>f\<bar> \<le> n * (hi * c * hi / 10)" using f_hi by linarith
  have k1: "1 \<le> lo * c * lo / 10" unfolding lo_def c_def by simp
  have k2: "hi * c * hi / 10 \<le> 1 + 1 / 1000" unfolding hi_def c_def by simp
  have "n * 1 \<le> n * (lo * c * lo / 10)" using k1 n1 by (intro mult_left_mono) simp_all
  with low have ge: "n \<le> \<bar>f\<bar>" by linarith
  have "n * (hi * c * hi / 10) \<le> n * (1 + 1 / 1000)" using k2 n1 by (intro mult_left_mono) simp_all
  moreover have "n * (1 + 1 / 1000) = n + n / 1000" by (simp add: algebra_simps)
  ultimately have "\<bar>f\<bar> \<le> n + n / 1000" using high by linarith
  with n999 have lt: "\<bar>f\<bar> < n + 1" by linarith
  have fl: "\<lfloor>\<bar>f\<bar>\<rfloor> = \<bar>k\<bar>"
    using ge lt unfolding n_def by (intro floor_unique) simp_all
  have "float_to_u16 \<bar>f\<bar> = Some (word_of_int \<bar>k\<bar>)"
    using assms unfolding float_to_u16_def c_trunc_def fl by simp
  moreover have "(word_of_int \<bar>k\<bar> :: u16) = of_nat (nat \<bar>k\<bar>)" by simp
  moreover have "f = float32 (float32 (of_int k / 10) * float32 (10001 / 1000))"
    unfolding f_def a_def x_def c_def float32_10001 ..
  ultimately show ?thesis by (simp only:)
qed

section \<open>Verification of the payload\<close>

subsection \<open>Nibbles and decimal digits\<close>

lemma low_nibble_pack: "low_nibble (push_bit 4 a OR b) = low_nibble b"
proof -
  have m: "(0x0F::u8) = mask 4" by (simp add: mask_eq_exp_minus_1)
  show ?thesis unfolding low_nibble_def m
    by (rule bit_word_eqI) (auto simp add: bit_and_iff bit_or_iff bit_mask_iff bit_push_bit_iff)
qed

lemma high_nibble_pack: "high_nibble (push_bit 4 a OR b) = low_nibble a OR high_nibble b"
proof -
  have m: "(0x0F::u8) = mask 4" by (simp add: mask_eq_exp_minus_1)
  show ?thesis unfolding low_nibble_def high_nibble_def m
    apply (rule bit_word_eqI)
    apply (simp add: bit_and_iff bit_or_iff bit_mask_iff bit_push_bit_iff bit_drop_bit_eq)
    using bit_imp_le_length apply fastforce
    done
qed

lemma digit_nibbles:
  assumes "d < 16"
  shows "low_nibble (of_nat d) = of_nat d" "high_nibble (of_nat d) = 0"
proof -
  have m: "(0x0F::u8) = mask 4" by (simp add: mask_eq_exp_minus_1)
  have lt: "(of_nat d :: u8) < 2 ^ 4"
    using assms by (simp add: word_less_nat_alt unat_of_nat)
  show "low_nibble (of_nat d) = of_nat d"
    unfolding low_nibble_def m using lt by (simp add: less_mask_eq)
  have "unat (of_nat d :: u8) = d" using assms by (simp add: unat_of_nat)
  then have "unat (drop_bit 4 (of_nat d :: u8)) = d div 16"
    by (simp add: drop_bit_eq_div unat_div)
  then have "unat (drop_bit 4 (of_nat d :: u8)) = 0"
    using assms by simp
  then show "high_nibble (of_nat d) = 0"
    unfolding high_nibble_def by (simp only: unat_eq_zero)
qed

lemma u16_digits:
  assumes "n \<le> 999"
  shows "(of_nat n :: u16) mod 10 = of_nat (n mod 10)"
        "((of_nat n :: u16) div 10) mod 10 = of_nat ((n div 10) mod 10)"
        "(of_nat n :: u16) div 100 = of_nat (n div 100)"
proof -
  have small: "unat (of_nat m :: u16) = m" if "m \<le> 999" for m
    using that by (simp add: unat_of_nat)
  have u: "unat (of_nat n :: u16) = n" using assms by (rule small)
  have r0: "unat (of_nat (n mod 10) :: u16) = n mod 10" by (rule small) simp
  have r1: "unat (of_nat ((n div 10) mod 10) :: u16) = (n div 10) mod 10" by (rule small) simp
  have r2: "unat (of_nat (n div 100) :: u16) = n div 100" using assms by (intro small) simp
  have c: "unat (10::u16) = 10" "unat (100::u16) = 100" by simp_all
  show "(of_nat n :: u16) mod 10 = of_nat (n mod 10)"
    by (rule word_unat_eq_iff[THEN iffD2]) (simp only: unat_mod u r0 c)
  show "((of_nat n :: u16) div 10) mod 10 = of_nat ((n div 10) mod 10)"
    by (rule word_unat_eq_iff[THEN iffD2]) (simp only: unat_mod unat_div u r1 c)
  show "(of_nat n :: u16) div 100 = of_nat (n div 100)"
    by (rule word_unat_eq_iff[THEN iffD2]) (simp only: unat_div u r2 c)
qed

lemma ucast_digit:
  assumes "a < 16"
  shows "(ucast (of_nat a :: u16) :: u8) = of_nat a"
proof -
  have "take_bit 16 a = a" using assms by (simp add: take_bit_nat_eq_self)
  then show ?thesis by (simp add: unsigned_of_nat)
qed

lemma ucast_push4: "(ucast (push_bit 4 x :: u16) :: u8) = push_bit 4 (ucast x)"
  by (rule bit_word_eqI) (auto simp add: bit_ucast_iff bit_push_bit_iff)

lemma ucast_pack:
  assumes "a < 16" "b < 16"
  shows "(ucast (push_bit 4 (of_nat a :: u16) OR of_nat b) :: u8) = push_bit 4 (of_nat a) OR of_nat b"
  using assms by (simp only: unsigned_or_eq ucast_push4 ucast_digit)

lemma digit_mask16:
  assumes "d < 16"
  shows "(of_nat d :: u16) AND 0x0F = of_nat d"
proof -
  have m: "(0x0F::u16) = mask 4" by (simp add: mask_eq_exp_minus_1)
  have lt: "(of_nat d :: u16) < 2 ^ 4"
    using assms by (simp add: word_less_nat_alt unat_of_nat)
  show ?thesis unfolding m using lt by (simp add: less_mask_eq)
qed

lemma u8_digits:
  fixes hum :: u8
  assumes "unat hum \<le> 99"
  shows "hum mod 10 = of_nat (unat hum mod 10)"
        "(hum div 10) mod 10 = of_nat (unat hum div 10)"
proof -
  have small: "unat (of_nat m :: u8) = m" if "m \<le> 99" for m
    using that by (simp add: unat_of_nat)
  have r0: "unat (of_nat (unat hum mod 10) :: u8) = unat hum mod 10" by (rule small) simp
  have r1: "unat (of_nat (unat hum div 10) :: u8) = unat hum div 10" using assms by (intro small) simp
  have c: "unat (10::u8) = 10" by simp
  have lt: "unat hum div 10 mod 10 = unat hum div 10" using assms by simp
  show "hum mod 10 = of_nat (unat hum mod 10)"
    by (rule word_unat_eq_iff[THEN iffD2]) (simp only: unat_mod r0 c)
  show "(hum div 10) mod 10 = of_nat (unat hum div 10)"
    by (rule word_unat_eq_iff[THEN iffD2]) (simp only: unat_mod unat_div r1 c lt)
qed

lemma uint_digit:
  assumes "d < 16"
  shows "uint (of_nat d :: u8) = int d"
proof -
  have "unat (of_nat d :: u8) = d" using assms by (simp add: unat_of_nat)
  then show ?thesis by (simp only: uint_nat)
qed

lemma bcd2: "10 * int (h div 10) + int (h mod 10) = int h"
proof -
  have "10 * (h div 10) + h mod 10 = h" by simp
  then have "int (10 * (h div 10) + h mod 10) = int h" by (simp only:)
  moreover have "int (10 * (h div 10) + h mod 10) = 10 * int (h div 10) + int (h mod 10)"
    by (simp only: of_nat_add of_nat_mult of_nat_numeral)
  ultimately show ?thesis by (simp only:)
qed

lemma bcd3: "100 * int (n div 100) + 10 * int (n div 10 mod 10) + int (n mod 10) = int n"
proof -
  have e3: "n div 10 div 10 = n div 100" by (simp add: div_mult2_eq[symmetric])
  have "10 * int (n div 10 div 10) + int (n div 10 mod 10) = int (n div 10)" by (rule bcd2)
  moreover have "10 * int (n div 10) + int (n mod 10) = int n" by (rule bcd2)
  ultimately show ?thesis unfolding e3 by linarith
qed

lemma sign_byte:
  "bit ((if neg then 0x80 else 0) OR (y AND 0x0F) :: u8) 7 = neg"
  "low_nibble ((if neg then 0x80 else 0) OR (y AND 0x0F)) = low_nibble y"
proof -
  have m: "(0x0F::u8) = mask 4" by (simp add: mask_eq_exp_minus_1)
  have h: "(0x80::u8) = push_bit 4 8" by simp
  have b7: "bit (0x80::u8) 7" by simp
  have n7: "\<not> bit (y AND 0x0F) 7" unfolding m by (simp add: bit_and_iff bit_mask_iff)
  show "bit ((if neg then 0x80 else 0) OR (y AND 0x0F) :: u8) 7 = neg"
    using b7 n7 by (cases neg) (simp_all only: if_True if_False bit_or_iff or.left_neutral simp_thms)
  have idem: "low_nibble (y AND 0x0F) = low_nibble y" by (simp add: low_nibble_def)
  show "low_nibble ((if neg then 0x80 else 0) OR (y AND 0x0F)) = low_nibble y"
    by (cases neg) (simp_all only: if_True if_False h low_nibble_pack or.left_neutral idem)
qed

subsection \<open>The bytes of the payload\<close>

lemma oregon_nibbles: "oregon_checksum_v3 p (int V3_PAYLOAD_NIBBLES) = Some (simpleChecksum_even p 15)"
  using oregon_checksum_v3_even[of 15 p] by (simp add: V3_PAYLOAD_NIBBLES_def)

lemma crc8_nibbles: "crc8_checksum_v3 p (of_nat V3_PAYLOAD_NIBBLES) = Some (crc8_reference p 15)"
  using crc8_checksum_v3_reference[of 15 p] by (simp add: V3_PAYLOAD_NIBBLES_def)

lemma simpleChecksum_window:
  assumes "\<forall>i\<in>{3..10}. m i = m' i"
  shows "simpleChecksum_even m 15 = simpleChecksum_even m' 15"
proof -
  have "low_nibble (m 3) = low_nibble (m' 3)" "\<forall>i\<in>{4..10}. m i = m' i"
    using assms by simp_all
  from nibble_sum_window[OF this] show ?thesis by (simp add: simpleChecksum_even_def)
qed

lemma crc8_reference_window:
  assumes "\<forall>i\<in>{3..10}. m i = m' i"
  shows "crc8_reference m 15 = crc8_reference m' 15"
proof -
  have "nibble_at m i = nibble_at m' i" if "i \<in> {7..21}" for i
  proof -
    from that have "int (i div 2) \<in> {3..10}" by auto
    with assms show ?thesis by (simp add: nibble_at_def)
  qed
  then have "\<forall>i\<in>{7..21}. nibble_at m i = nibble_at m' i" by blast
  from crc8_fold_window[OF this, of 0] show ?thesis by (simp add: crc8_reference_def)
qed

lemma payload_thgn801_bytes:
  assumes "float_to_u16 \<bar>float32 (tempC * float32 (10001 / 1000))\<bar> = Some t10"
  shows "\<exists>p. payload_thgn801 mem rollingCode tempC hum = Some p \<and>
     p 0 = 0xFF \<and> p 1 = 0xFF \<and> p 2 = 0xFF \<and> p 3 = 0xAF \<and> p 4 = 0x82 \<and> p 5 = 0x41 \<and>
     p 6 = rollingCode \<and>
     p 7 = ucast ((t10 mod 10) AND 0x0F) \<and>
     p 8 = ucast (push_bit 4 ((t10 div 10) mod 10) OR ((t10 div 100) AND 0x0F)) \<and>
     p 9 = (if tempC < 0 then 0x80 else 0) OR ((hum mod 10) AND 0x0F) \<and>
     p 10 = push_bit 4 ((hum div 10) mod 10) \<and>
     oregon_checksum_v3 p 15 = Some (p 11) \<and>
     crc8_checksum_v3 p 15 = Some (p 12)"
proof -
  define q :: memory where "q = (memset (memset mem 0 V3_TX_BYTES) 0xFF 3)
     (3 := 0xAF, 4 := 0x82, 5 := 0x41, 6 := rollingCode,
      7 := ucast ((t10 mod 10) AND 0x0F),
      8 := ucast (push_bit 4 ((t10 div 10) mod 10) OR ((t10 div 100) AND 0x0F)),
      9 := (if tempC < 0 then 0x80 else 0) OR ((hum mod 10) AND 0x0F),
      10 := push_bit 4 ((hum div 10) mod 10))"
  define q1 where "q1 = q(11 := simpleChecksum_even q 15)"
  define p where "p = q1(12 := crc8_reference q1 15)"
  have ret: "payload_thgn801 mem rollingCode tempC hum = Some p"
    unfolding payload_thgn801_def assms Let_def option.case oregon_nibbles crc8_nibbles
      p_def q1_def q_def
    by (simp add: V3_CHANNEL_def fun_upd_twist)
  have w1: "\<forall>i\<in>{3..10}. p i = q i" by (simp add: p_def q1_def)
  have w2: "\<forall>i\<in>{3..10}. p i = q1 i" by (simp add: p_def)
  have p11: "p 11 = simpleChecksum_even q 15" by (simp add: p_def q1_def)
  have p12: "p 12 = crc8_reference q1 15" by (simp add: p_def)
  have ck: "oregon_checksum_v3 p 15 = Some (p 11)"
    using simpleChecksum_window[OF w1] by (simp only: oregon_15 p11)
  have crc: "crc8_checksum_v3 p 15 = Some (p 12)"
    using crc8_reference_window[OF w2] by (simp only: crc8_15 p12)
  have "p 0 = 0xFF" "p 1 = 0xFF" "p 2 = 0xFF" "p 3 = 0xAF" "p 4 = 0x82" "p 5 = 0x41"
     "p 6 = rollingCode"
     "p 7 = ucast ((t10 mod 10) AND 0x0F)"
     "p 8 = ucast (push_bit 4 ((t10 div 10) mod 10) OR ((t10 div 100) AND 0x0F))"
     "p 9 = (if tempC < 0 then 0x80 else 0) OR ((hum mod 10) AND 0x0F)"
     "p 10 = push_bit 4 ((hum div 10) mod 10)"
    unfolding p_def q1_def q_def by (simp_all add: memset_def V3_TX_BYTES_def)
  with ret ck crc show ?thesis by blast
qed

lemma t10_minus_1_5: "float_to_u16 \<bar>float32 (- 3 / 2 * float32 (10001 / 1000))\<bar> = Some 15"
  by code_simp

lemma golden_checksums:
  "simpleChecksum_even (buffer [0xFF, 0xFF, 0xFF, 0xAF, 0x82, 0x41, 0x00, 0x05, 0x10, 0x80, 0x20]) 15 = 0xE2"
  "crc8_reference (buffer [0xFF, 0xFF, 0xFF, 0xAF, 0x82, 0x41, 0x00, 0x05, 0x10, 0x80, 0x20]) 15 = 0x73"
  by code_simp+

lemma ball_3_10: "(\<forall>i\<in>{3..10::int}. P i) = (P 3 \<and> P 4 \<and> P 5 \<and> P 6 \<and> P 7 \<and> P 8 \<and> P 9 \<and> P 10)"
proof -
  have "{3..10::int} = {3, 4, 5, 6, 7, 8, 9, 10}" by auto
  then show ?thesis by simp
qed

text \<open>
  Claim C1. For rolling code 0x00, temperature -1.5 and humidity 20, whatever the memory
  held before, \<open>payload_thgn801\<close> returns, and the 13 bytes of the buffer are FF FF FF
  (preamble), AF 82 41 (sync nibble A, sensor type F824, channel 1), 00 (rolling code),
  05 (flag 0 and the tenths digit 5), 10 (the digits 1 and 0), 80 (sign bit set, humidity
  digit 0), 20 (humidity digit 2, reserved nibble 0), E2 and 73; these last two are the
  simple checksum and the CRC-8 of the buffer over its 15 nibbles.
\<close>

theorem C1_golden_vector:
  "\<exists>p. payload_thgn801 mem 0x00 (- 3 / 2) 20 = Some p \<and>
       bytes_of p V3_TX_BYTES =
         [0xFF, 0xFF, 0xFF, 0xAF, 0x82, 0x41, 0x00, 0x05, 0x10, 0x80, 0x20, 0xE2, 0x73] \<and>
       oregon_checksum_v3 p (int V3_PAYLOAD_NIBBLES) = Some (p 11) \<and>
       crc8_checksum_v3 p (of_nat V3_PAYLOAD_NIBBLES) = Some (p 12)"
proof -
  let ?g = "buffer [0xFF, 0xFF, 0xFF, 0xAF, 0x82, 0x41, 0x00, 0x05, 0x10, 0x80, 0x20]"
  from payload_thgn801_bytes[OF t10_minus_1_5, of mem 0 20]
  obtain p where p: "payload_thgn801 mem 0x00 (- 3 / 2) 20 = Some p"
    "p 0 = 0xFF" "p 1 = 0xFF" "p 2 = 0xFF" "p 3 = 0xAF" "p 4 = 0x82" "p 5 = 0x41" "p 6 = 0"
    "p 7 = 0x05" "p 8 = 0x10" "p 9 = 0x80" "p 10 = 0x20"
    and ck: "oregon_checksum_v3 p 15 = Some (p 11)"
    and crc: "crc8_checksum_v3 p 15 = Some (p 12)"
    by auto
  have w: "\<forall>i\<in>{3..10}. p i = ?g i"
    unfolding ball_3_10 using p by (simp add: buffer_def)
  have p11: "p 11 = 0xE2"
    using ck simpleChecksum_window[OF w] by (simp add: oregon_15 golden_checksums)
  have p12: "p 12 = 0x73"
    using crc crc8_reference_window[OF w] by (simp add: crc8_15 golden_checksums)
  have n: "[0..<13] = [0, 1, 2, 3, 4, 5, 6, 7, 8, 9, 10, 11, 12]"
    by (simp add: upt_rec)
  have "bytes_of p V3_TX_BYTES =
         [0xFF, 0xFF, 0xFF, 0xAF, 0x82, 0x41, 0x00, 0x05, 0x10, 0x80, 0x20, 0xE2, 0x73]"
    unfolding bytes_of_def V3_TX_BYTES_def n using p p11 p12 by simp
  moreover have "oregon_checksum_v3 p (int V3_PAYLOAD_NIBBLES) = Some (p 11)"
    using ck by (simp add: V3_PAYLOAD_NIBBLES_def)
  moreover have "crc8_checksum_v3 p (of_nat V3_PAYLOAD_NIBBLES) = Some (p 12)"
    using crc by (simp add: V3_PAYLOAD_NIBBLES_def)
  ultimately show ?thesis using p(1) by blast
qed

subsection \<open>The round trip of a reading\<close>

text \<open>
  Claim C4, for the humidities the two digits can hold. For every temperature that is the
  \<open>float\<close> nearest to a multiple k/10 of 0.1 between -99.9 and 99.9, and every humidity from
  0 to 99, \<open>payload_thgn801\<close> returns, and the digits and the sign bit in bytes 7 to 10
  read back as k tenths of a degree and as the humidity.
\<close>

theorem C4_bcd_round_trip:
  assumes "\<bar>k\<bar> \<le> 999" and "unat hum \<le> 99"
  shows "\<exists>p. payload_thgn801 mem rollingCode (float32 (of_int k / 10)) hum = Some p \<and>
             decode_temp10 p = k \<and> decode_hum p = int (unat hum)"
proof -
  define n where "n = nat \<bar>k\<bar>"
  define h where "h = unat hum"
  have n: "n \<le> 999" using assms(1) by (simp add: n_def)
  from payload_thgn801_bytes[OF t10_tenths[OF assms(1)], of mem rollingCode hum]
  obtain p where ret: "payload_thgn801 mem rollingCode (float32 (of_int k / 10)) hum = Some p"
    and p7: "p 7 = ucast (((of_nat n :: u16) mod 10) AND 0x0F)"
    and p8: "p 8 = ucast (push_bit 4 (((of_nat n :: u16) div 10) mod 10) OR (((of_nat n :: u16) div 100) AND 0x0F))"
    and p9: "p 9 = (if float32 (of_int k / 10) < 0 then 0x80 else 0) OR ((hum mod 10) AND 0x0F)"
    and p10: "p 10 = push_bit 4 ((hum div 10) mod 10)"
    unfolding n_def by blast
  have d0: "n mod 10 < 16" and d1: "n div 10 mod 10 < 16" and d2: "n div 100 < 16"
    using n by simp_all
  have h0: "h mod 10 < 16" and h1: "h div 10 < 16" using assms(2) by (simp_all add: h_def)
  have b7: "p 7 = of_nat (n mod 10)"
    unfolding p7 u16_digits(1)[OF n] digit_mask16[OF d0] by (rule ucast_digit[OF d0])
  have b8: "p 8 = push_bit 4 (of_nat (n div 10 mod 10)) OR of_nat (n div 100)"
    unfolding p8 u16_digits(2)[OF n] u16_digits(3)[OF n] digit_mask16[OF d2]
    by (rule ucast_pack[OF d1 d2])
  have b9: "p 9 = (if k < 0 then 0x80 else 0) OR (of_nat (h mod 10) AND 0x0F)"
    unfolding p9 tenths_sign u8_digits(1)[OF assms(2)] h_def ..
  have b10: "p 10 = push_bit 4 (of_nat (h div 10)) OR 0"
    unfolding p10 u8_digits(2)[OF assms(2)] h_def by simp
  have t0: "uint (low_nibble (p 7)) = int (n mod 10)"
    unfolding b7 digit_nibbles(1)[OF d0] by (rule uint_digit[OF d0])
  have t1: "uint (high_nibble (p 8)) = int (n div 10 mod 10)"
    unfolding b8 high_nibble_pack digit_nibbles(1)[OF d1] digit_nibbles(2)[OF d2]
    by (simp add: uint_digit[OF d1])
  have t2: "uint (low_nibble (p 8)) = int (n div 100)"
    unfolding b8 low_nibble_pack digit_nibbles(1)[OF d2] by (rule uint_digit[OF d2])
  have sg: "bit (p 9) 7 = (k < 0)" unfolding b9 by (rule sign_byte(1))
  have u0: "uint (low_nibble (p 9)) = int (h mod 10)"
    unfolding b9 sign_byte(2) digit_nibbles(1)[OF h0] by (rule uint_digit[OF h0])
  have u1: "uint (high_nibble (p 10)) = int (h div 10)"
    unfolding b10 high_nibble_pack digit_nibbles(1)[OF h1]
    by (simp add: high_nibble_def uint_digit[OF h1])
  have "100 * int (n div 100) + 10 * int (n div 10 mod 10) + int (n mod 10) = int n"
    by (rule bcd3)
  then have "decode_temp10 p = (if k < 0 then - 1 else 1) * int n"
    unfolding decode_temp10_def t0 t1 t2 sg by simp
  then have dt: "decode_temp10 p = k" by (simp add: n_def)
  have "10 * int (h div 10) + int (h mod 10) = int h"
    by (rule bcd2)
  then have dh: "decode_hum p = int (unat hum)"
    unfolding decode_hum_def u0 u1 h_def by simp
  from ret dt dh show ?thesis by blast
qed

text \<open>The theorem at -1.5 degrees and 20 percent.\<close>

theorem C4_bcd_round_trip_witness:
  "\<bar>- 15 :: int\<bar> \<le> 999 \<and> unat (20::u8) \<le> 99 \<and>
   (\<exists>p. payload_thgn801 (buffer []) 0 (float32 (of_int (- 15) / 10)) 20 = Some p \<and>
        decode_temp10 p = - 15 \<and> decode_hum p = int (unat (20::u8)))"
  using C4_bcd_round_trip [of "- 15" 20 "buffer []" 0] by simp

text \<open>
  Claim C4 as stated includes the humidity 100. At 21.5 degrees and 100 percent the
  temperature reads back as 215 tenths, the humidity as 0: \<open>(hum / 10) % 10\<close> cuts the
  hundreds off.
\<close>

theorem C4_humidity_100_counterexample:
  "map_option decode_temp10 (payload_thgn801 (buffer []) 0 (float32 (215 / 10)) 100) = Some 215 \<and>
   map_option decode_hum (payload_thgn801 (buffer []) 0 (float32 (215 / 10)) 100) = Some 0 \<and>
   map_option decode_hum (payload_thgn801 (buffer []) 0 (float32 (215 / 10)) 100)
     \<noteq> Some (int (unat (100::u8)))"
  by code_simp

section \<open>Verification of the modulator\<close>

subsection \<open>One byte\<close>

lemma one_le_word: "(1 \<le> x) = (x \<noteq> 0)" for x :: u8
  by (simp add: word_le_nat_alt unat_eq_zero[symmetric] del: unat_eq_zero) linarith

lemma mask_bit_gen: "(1 \<le> b AND 2 ^ k) = bit b k" for b :: u8
  by (simp only: one_le_word and_exp_eq_0_iff_not_bit not_not)

lemma mask_bit:
  fixes b :: u8
  shows "(1 \<le> b AND 0x10) = bit b 4" "(1 \<le> b AND 0x20) = bit b 5"
        "(1 \<le> b AND 0x40) = bit b 6" "(1 \<le> b AND 0x80) = bit b 7"
        "(1 \<le> b AND 0x01) = bit b 0" "(1 \<le> b AND 0x02) = bit b 1"
        "(1 \<le> b AND 0x04) = bit b 2" "(1 \<le> b AND 0x08) = bit b 3"
  using mask_bit_gen[of b 4] mask_bit_gen[of b 5] mask_bit_gen[of b 6] mask_bit_gen[of b 7]
        mask_bit_gen[of b 0] mask_bit_gen[of b 1] mask_bit_gen[of b 2] mask_bit_gen[of b 3]
  by simp_all

lemma encode_loop_8:
  "encode_loop micros b 0 st =
     encode_step micros b (encode_step micros b (encode_step micros b (encode_step micros b
    (encode_step micros b (encode_step micros b (encode_step micros b (encode_step micros b st)))))))"
  by simp

lemma encode_step_fst:
  "fst (encode_step micros b (m, s)) =
     (if m = 0 then 0x10 else if m = 0x80 then 0x01 else push_bit 1 m)"
  by (simp add: encode_step_def Let_def)

lemma encode_step_trace:
  "trace (snd (encode_step micros b (m, s))) =
     trace s @ [DelayMicroseconds (txMicros s + V3_PULSE_LENGHT_US * 2 - micros (reads s + 1)),
                DigitalWrite RF433_TX_PIN (1 \<le> b AND fst (encode_step micros b (m, s))),
                DelayMicroseconds pulse_on_us,
                DigitalWrite RF433_TX_PIN (\<not> 1 \<le> b AND fst (encode_step micros b (m, s)))]"
  by (simp add: encode_step_def Let_def)

lemma encode_step_rf:
  "\<exists>es. trace (snd (encode_step micros b st)) = trace (snd st) @ es \<and>
        rf_levels es = [1 \<le> b AND fst (encode_step micros b st), \<not> 1 \<le> b AND fst (encode_step micros b st)]"
proof -
  obtain m s where st: "st = (m, s)" by (cases st)
  show ?thesis unfolding st
    by (rule exI, rule conjI, simp only: snd_conv, rule encode_step_trace) simp
qed

lemma manchester_encode_v3_rf:
  "\<exists>es. trace (manchester_encode_v3 micros s b) = trace s @ es \<and> rf_levels es = byte_cells b"
proof -
  define s0 where "s0 = (if txMicros_init s then s
               else s\<lparr>txMicros := micros (reads s), txMicros_init := True, reads := reads s + 1\<rparr>)"
  have t0: "trace s0 = trace s" by (simp add: s0_def)
  define st0 where "st0 = (0::u8, s0)"
  define st1 where "st1 = encode_step micros b st0"
  define st2 where "st2 = encode_step micros b st1"
  define st3 where "st3 = encode_step micros b st2"
  define st4 where "st4 = encode_step micros b st3"
  define st5 where "st5 = encode_step micros b st4"
  define st6 where "st6 = encode_step micros b st5"
  define st7 where "st7 = encode_step micros b st6"
  define st8 where "st8 = encode_step micros b st7"
  have m1: "fst st1 = 0x10" unfolding st1_def st0_def by (simp add: encode_step_fst)
  have m2: "fst st2 = 0x20" unfolding st2_def using m1 by (cases st1) (simp add: encode_step_fst)
  have m3: "fst st3 = 0x40" unfolding st3_def using m2 by (cases st2) (simp add: encode_step_fst)
  have m4: "fst st4 = 0x80" unfolding st4_def using m3 by (cases st3) (simp add: encode_step_fst)
  have m5: "fst st5 = 0x01" unfolding st5_def using m4 by (cases st4) (simp add: encode_step_fst)
  have m6: "fst st6 = 0x02" unfolding st6_def using m5 by (cases st5) (simp add: encode_step_fst)
  have m7: "fst st7 = 0x04" unfolding st7_def using m6 by (cases st6) (simp add: encode_step_fst)
  have m8: "fst st8 = 0x08" unfolding st8_def using m7 by (cases st7) (simp add: encode_step_fst)
  obtain e1 where e1: "trace (snd st1) = trace (snd st0) @ e1" "rf_levels e1 = [bit b 4, \<not> bit b 4]"
    using encode_step_rf[of micros b st0] m1 unfolding st1_def[symmetric] by (auto simp add: mask_bit)
  obtain e2 where e2: "trace (snd st2) = trace (snd st1) @ e2" "rf_levels e2 = [bit b 5, \<not> bit b 5]"
    using encode_step_rf[of micros b st1] m2 unfolding st2_def[symmetric] by (auto simp add: mask_bit)
  obtain e3 where e3: "trace (snd st3) = trace (snd st2) @ e3" "rf_levels e3 = [bit b 6, \<not> bit b 6]"
    using encode_step_rf[of micros b st2] m3 unfolding st3_def[symmetric] by (auto simp add: mask_bit)
  obtain e4 where e4: "trace (snd st4) = trace (snd st3) @ e4" "rf_levels e4 = [bit b 7, \<not> bit b 7]"
    using encode_step_rf[of micros b st3] m4 unfolding st4_def[symmetric] by (auto simp add: mask_bit)
  obtain e5 where e5: "trace (snd st5) = trace (snd st4) @ e5" "rf_levels e5 = [bit b 0, \<not> bit b 0]"
    using encode_step_rf[of micros b st4] m5 unfolding st5_def[symmetric] by (auto simp add: mask_bit)
  obtain e6 where e6: "trace (snd st6) = trace (snd st5) @ e6" "rf_levels e6 = [bit b 1, \<not> bit b 1]"
    using encode_step_rf[of micros b st5] m6 unfolding st6_def[symmetric] by (auto simp add: mask_bit)
  obtain e7 where e7: "trace (snd st7) = trace (snd st6) @ e7" "rf_levels e7 = [bit b 2, \<not> bit b 2]"
    using encode_step_rf[of micros b st6] m7 unfolding st7_def[symmetric] by (auto simp add: mask_bit)
  obtain e8 where e8: "trace (snd st8) = trace (snd st7) @ e8" "rf_levels e8 = [bit b 3, \<not> bit b 3]"
    using encode_step_rf[of micros b st7] m8 unfolding st8_def[symmetric] by (auto simp add: mask_bit)
  have res: "manchester_encode_v3 micros s b = snd st8"
    unfolding manchester_encode_v3_def s0_def[symmetric] Let_def encode_loop_8
      st0_def[symmetric] st1_def[symmetric] st2_def[symmetric] st3_def[symmetric] st4_def[symmetric]
      st5_def[symmetric] st6_def[symmetric] st7_def[symmetric] st8_def[symmetric] ..
  have rf_app: "rf_levels (xs @ ys) = rf_levels xs @ rf_levels ys" for xs ys
    by (induction xs rule: rf_levels.induct) simp_all
  have "trace (snd st8) = trace s @ (e1 @ e2 @ e3 @ e4 @ e5 @ e6 @ e7 @ e8)"
    using e1(1) e2(1) e3(1) e4(1) e5(1) e6(1) e7(1) e8(1) t0 by (simp add: st0_def)
  moreover have "rf_levels (e1 @ e2 @ e3 @ e4 @ e5 @ e6 @ e7 @ e8) = byte_cells b"
    using e1(2) e2(2) e3(2) e4(2) e5(2) e6(2) e7(2) e8(2) by (simp add: rf_app byte_cells_def)
  ultimately show ?thesis unfolding res by blast
qed

subsection \<open>A sequence of bytes, and its decoding\<close>

lemma rf_levels_append: "rf_levels (xs @ ys) = rf_levels xs @ rf_levels ys"
  by (induction xs rule: rf_levels.induct) simp_all

lemma send_loop_rf:
  assumes "unat i \<le> unat len"
  shows "\<exists>es. trace (snd (send_loop micros p len i s)) = trace s @ es \<and>
              rf_levels es = concat (map (\<lambda>k. byte_cells (p (int k))) [unat i..<unat len]) \<and>
              fst (send_loop micros p len i s) = len"
  using assms
proof (induction "unat len - unat i" arbitrary: i s)
  case 0
  then have "unat i = unat len" by simp
  then have eq: "i = len" by (simp add: word_unat_eq_iff)
  show ?case unfolding eq by (subst send_loop.simps, subst send_loop.simps) simp
next
  case (Suc n)
  then have lt: "unat i < unat len" by linarith
  then have ilt: "i < len" by (simp add: word_less_nat_alt)
  have "unat len < 256" using unsigned_less[of len, where 'a = nat] by simp
  with lt have ui: "unat (i + 1) = unat i + 1" by (simp add: unat_word_ariths)
  let ?s1 = "manchester_encode_v3 micros s (p (uint i))"
  obtain e1 where e1: "trace ?s1 = trace s @ e1" "rf_levels e1 = byte_cells (p (uint i))"
    using manchester_encode_v3_rf by blast
  have "n = unat len - unat (i + 1)" "unat (i + 1) \<le> unat len"
    using Suc.hyps(2) lt ui by simp_all
  from Suc.hyps(1)[OF this, of ?s1]
  obtain es where es: "trace (snd (send_loop micros p len (i + 1) ?s1)) = trace ?s1 @ es"
     "rf_levels es = concat (map (\<lambda>k. byte_cells (p (int k))) [unat (i + 1)..<unat len])"
     "fst (send_loop micros p len (i + 1) ?s1) = len"
    by blast
  have step: "send_loop micros p len i s = send_loop micros p len (i + 1) ?s1"
    using ilt by (subst send_loop.simps) simp
  have idx: "uint i = int (unat i)" by (rule uint_nat)
  have "trace (snd (send_loop micros p len i s)) = trace s @ (e1 @ es)"
    unfolding step using es(1) e1(1) by simp
  moreover have "rf_levels (e1 @ es) = concat (map (\<lambda>k. byte_cells (p (int k))) [unat i..<unat len])"
    unfolding rf_levels_append e1(2) es(2) ui idx
    by (subst upt_conv_Cons[OF lt]) simp
  moreover have "fst (send_loop micros p len i s) = len" unfolding step by (rule es(3))
  ultimately show ?case by blast
qed

lemma decode_cells_byte:
  "decode_cells (byte_cells b @ ls) =
     map_option ((@) [bit b 4, bit b 5, bit b 6, bit b 7, bit b 0, bit b 1, bit b 2, bit b 3])
       (decode_cells ls)"
  by (cases "decode_cells ls") (simp_all add: byte_cells_def)

lemma byte_of_bits:
  "bit_val (bit b 0) 0 OR bit_val (bit b 1) 1 OR bit_val (bit b 2) 2 OR bit_val (bit b 3) 3 OR
   bit_val (bit b 4) 4 OR bit_val (bit b 5) 5 OR bit_val (bit b 6) 6 OR bit_val (bit b 7) 7 = b"
  for b :: u8
proof (rule bit_word_eqI)
  fix n assume "n < LENGTH(8)"
  then have "n \<in> {0, 1, 2, 3, 4, 5, 6, 7}" by auto
  then show "bit (bit_val (bit b 0) 0 OR bit_val (bit b 1) 1 OR bit_val (bit b 2) 2 OR bit_val (bit b 3) 3 OR
   bit_val (bit b 4) 4 OR bit_val (bit b 5) 5 OR bit_val (bit b 6) 6 OR bit_val (bit b 7) 7) n = bit b n"
    by (elim insertE emptyE; simp only: bit_or_iff bit_val_def; cases "bit b n"; simp add: bit_push_bit_iff bit_1_iff)
qed

lemma decode_bytes_byte:
  "decode_bytes ([bit b 4, bit b 5, bit b 6, bit b 7, bit b 0, bit b 1, bit b 2, bit b 3] @ bs) =
     map_option ((#) b) (decode_bytes bs)"
  by (simp only: append_Cons append_Nil decode_bytes.simps byte_of_bits)

lemma manchester_decode_bytes:
  assumes "rf_levels es = concat (map byte_cells bs)"
  shows "manchester_decode es = Some bs"
proof -
  have "decode_cells (concat (map byte_cells bs)) =
          Some (concat (map (\<lambda>b. [bit b 4, bit b 5, bit b 6, bit b 7, bit b 0, bit b 1, bit b 2, bit b 3]) bs))"
    by (induction bs) (simp_all add: decode_cells_byte del: append.simps)
  moreover have "decode_bytes (concat (map (\<lambda>b. [bit b 4, bit b 5, bit b 6, bit b 7, bit b 0, bit b 1, bit b 2, bit b 3]) bs)) = Some bs"
  proof (induction bs)
    case Nil
    show ?case by simp
  next
    case (Cons a bs)
    show ?case using decode_bytes_byte[of a] Cons by (simp only: list.map concat.simps option.map)
  qed
  ultimately show ?thesis using assms by (simp add: manchester_decode_def)
qed

text \<open>
  Claim C7. For every byte, clock and state, the levels that \<open>manchester_encode_v3\<close> writes
  to the transmitter pin are the bit cells of bits 4, 5, 6, 7, 0, 1, 2, 3 in this order, a
  set bit as on then off, a clear bit as off then on. For every memory and length, decoding
  what the loop of \<open>send_data_v3\<close> over the bytes adds to the trace gives back the bytes
  of the payload.
\<close>

theorem C7_manchester_round_trip:
  "rf_levels (added s (manchester_encode_v3 micros s b)) = byte_cells b \<and>
   manchester_decode (added s (snd (send_loop micros payload len 0 s)))
     = Some (bytes_of payload (unat len))"
proof
  obtain es where "trace (manchester_encode_v3 micros s b) = trace s @ es" "rf_levels es = byte_cells b"
    using manchester_encode_v3_rf by blast
  then show "rf_levels (added s (manchester_encode_v3 micros s b)) = byte_cells b"
    by (simp add: added_def)
next
  have "unat (0::u8) \<le> unat len" by simp
  from send_loop_rf[OF this, of micros payload s]
  obtain es where es: "trace (snd (send_loop micros payload len 0 s)) = trace s @ es"
    "rf_levels es = concat (map (\<lambda>k. byte_cells (payload (int k))) [unat (0::u8)..<unat len])"
    by blast
  have "rf_levels es = concat (map byte_cells (bytes_of payload (unat len)))"
    using es(2) by (simp add: bytes_of_def comp_def)
  from manchester_decode_bytes[OF this] es(1)
  show "manchester_decode (added s (snd (send_loop micros payload len 0 s)))
     = Some (bytes_of payload (unat len))"
    by (simp add: added_def)
qed

subsection \<open>The deadline of a bit\<close>

lemma pulse_on_us_402: "pulse_on_us = 402"
  by code_simp

text \<open>
  Claim C6, on the code. In every iteration \<open>txMicros\<close> advances by 2 * 488, and the value
  passed to \<open>delayMicroseconds\<close> is the 32-bit difference of the new deadline and the clock,
  whatever their order: the test \<open>txMicros - micros() < 0\<close> is made on unsigned numbers and
  never holds. With the deadline at 976 and the clock at 977 the value passed is
  4294967295.
\<close>

theorem C6_deadline_delay:
  "txMicros (snd (encode_step micros txByte (bitMask, s))) = txMicros s + 2 * 488 \<and>
   hd (added s (snd (encode_step micros txByte (bitMask, s))))
     = DelayMicroseconds (txMicros s + 2 * 488 - micros (reads s + 1)) \<and>
   hd (added modulator_init (manchester_encode_v3 late_clock modulator_init 0))
     = DelayMicroseconds 4294967295"
proof (intro conjI)
  show "txMicros (snd (encode_step micros txByte (bitMask, s))) = txMicros s + 2 * 488"
    by (simp add: encode_step_def Let_def V3_PULSE_LENGHT_US_def)
  show "hd (added s (snd (encode_step micros txByte (bitMask, s))))
     = DelayMicroseconds (txMicros s + 2 * 488 - micros (reads s + 1))"
    by (simp add: added_def encode_step_trace V3_PULSE_LENGHT_US_def)
  show "hd (added modulator_init (manchester_encode_v3 late_clock modulator_init 0))
     = DelayMicroseconds 4294967295"
    by code_simp
qed

subsection \<open>After the last byte\<close>

lemma bit3_test: "(x AND 0x08 = 0) = (\<not> bit x 3)" for x :: u8
proof -
  have "(0x08::u8) = 2 ^ 3" by simp
  then show ?thesis by (simp only: and_exp_eq_0_iff_not_bit)
qed

text \<open>
  Claim C5, on the code. For every payload, length, clock and state the trace of
  \<open>send_data_v3\<close> is: the pin driven LOW, what the loop over the bytes adds (the bit cells
  of the payload), one delay of one unit pulse length exactly when the byte at index
  \<open>len\<close>, the one behind the final byte, has bit 3 clear, the pin driven LOW. After the
  loop the counter is \<open>len\<close>, and \<open>payload[i]\<close> is read with it. The 13 bytes that
  \<open>payload_thgn801\<close> builds for -1.5 degrees and 20 percent end in 0x73, whose bit 3 is
  clear: followed in memory by 0x08 they are sent without the delay. The one byte 0x00
  followed by 0x08 is sent without it as well, the last delay of the trace being the on
  time of the last bit; the one byte 0x08, whose bit 3 is set, followed by 0x00 is sent
  with it.
\<close>

theorem C5_trailing_delay_reads_past_payload:
  "trace (send_data_v3 micros payload len s) =
     trace s @ [DigitalWrite RF433_TX_PIN False]
       @ added (emit [DigitalWrite RF433_TX_PIN False] s)
           (snd (send_loop micros payload len 0 (emit [DigitalWrite RF433_TX_PIN False] s)))
       @ (if bit (payload (uint len)) 3 then [] else [DelayMicroseconds V3_PULSE_LENGHT_US])
       @ [DigitalWrite RF433_TX_PIN False] \<and>
   manchester_decode
       (added (emit [DigitalWrite RF433_TX_PIN False] s)
          (snd (send_loop micros payload len 0 (emit [DigitalWrite RF433_TX_PIN False] s))))
     = Some (bytes_of payload (unat len)) \<and>
   \<not> bit (buffer [0xFF, 0xFF, 0xFF, 0xAF, 0x82, 0x41, 0x00, 0x05, 0x10, 0x80, 0x20, 0xE2, 0x73, 0x08] 12) 3 \<and>
   trace (send_data_v3 still_clock
       (buffer [0xFF, 0xFF, 0xFF, 0xAF, 0x82, 0x41, 0x00, 0x05, 0x10, 0x80, 0x20, 0xE2, 0x73, 0x08])
       13 modulator_init) =
     [DigitalWrite RF433_TX_PIN False]
       @ added (emit [DigitalWrite RF433_TX_PIN False] modulator_init)
           (snd (send_loop still_clock
              (buffer [0xFF, 0xFF, 0xFF, 0xAF, 0x82, 0x41, 0x00, 0x05, 0x10, 0x80, 0x20, 0xE2, 0x73, 0x08])
              13 0 (emit [DigitalWrite RF433_TX_PIN False] modulator_init)))
       @ [DigitalWrite RF433_TX_PIN False] \<and>
   \<not> bit (buffer [0x00, 0x08] 0) 3 \<and>
   last (timeline False (trace (send_data_v3 still_clock (buffer [0x00, 0x08]) 1 modulator_init)))
     = (False, pulse_on_us) \<and>
   bit (buffer [0x08, 0x00] 0) 3 \<and>
   last (timeline False (trace (send_data_v3 still_clock (buffer [0x08, 0x00]) 1 modulator_init)))
     = (False, V3_PULSE_LENGHT_US)"
proof -
  have gen: "trace (send_data_v3 micros payload len s) =
     trace s @ [DigitalWrite RF433_TX_PIN False]
       @ added (emit [DigitalWrite RF433_TX_PIN False] s)
           (snd (send_loop micros payload len 0 (emit [DigitalWrite RF433_TX_PIN False] s)))
       @ (if bit (payload (uint len)) 3 then [] else [DelayMicroseconds V3_PULSE_LENGHT_US])
       @ [DigitalWrite RF433_TX_PIN False] \<and>
     manchester_decode
       (added (emit [DigitalWrite RF433_TX_PIN False] s)
          (snd (send_loop micros payload len 0 (emit [DigitalWrite RF433_TX_PIN False] s))))
     = Some (bytes_of payload (unat len))"
    for micros payload len s
  proof -
    let ?s1 = "emit [DigitalWrite RF433_TX_PIN False] s"
    have "unat (0::u8) \<le> unat len" by simp
    from send_loop_rf[OF this, of micros payload ?s1]
    obtain es where es: "trace (snd (send_loop micros payload len 0 ?s1)) = trace ?s1 @ es"
      "rf_levels es = concat (map (\<lambda>k. byte_cells (payload (int k))) [unat (0::u8)..<unat len])"
      "fst (send_loop micros payload len 0 ?s1) = len"
      by blast
    have ad: "added ?s1 (snd (send_loop micros payload len 0 ?s1)) = es"
      using es(1) by (simp add: added_def)
    have cells: "rf_levels es = concat (map byte_cells (bytes_of payload (unat len)))"
      using es(2) by (simp add: bytes_of_def comp_def)
    have dec: "manchester_decode es = Some (bytes_of payload (unat len))"
      by (rule manchester_decode_bytes[OF cells])
    have tr: "trace (send_data_v3 micros payload len s) =
       trace s @ [DigitalWrite RF433_TX_PIN False] @ es
         @ (if bit (payload (uint len)) 3 then [] else [DelayMicroseconds V3_PULSE_LENGHT_US])
         @ [DigitalWrite RF433_TX_PIN False]"
      unfolding send_data_v3_def Let_def es(3) bit3_test
      using es(1) by (simp add: emit_def)
    from tr dec show ?thesis unfolding ad by blast
  qed
  let ?f = "buffer [0xFF, 0xFF, 0xFF, 0xAF, 0x82, 0x41, 0x00, 0x05, 0x10, 0x80, 0x20, 0xE2, 0x73, 0x08]"
  have behind: "bit (?f (uint (13::u8))) 3" by (simp add: buffer_def)
  have final: "\<not> bit (?f 12) 3" by (simp add: buffer_def)
  have frame: "trace (send_data_v3 still_clock ?f 13 modulator_init) =
     [DigitalWrite RF433_TX_PIN False]
       @ added (emit [DigitalWrite RF433_TX_PIN False] modulator_init)
           (snd (send_loop still_clock ?f 13 0 (emit [DigitalWrite RF433_TX_PIN False] modulator_init)))
       @ [DigitalWrite RF433_TX_PIN False]"
    using gen[of still_clock ?f 13 modulator_init] behind
    by (simp add: modulator_init_def)
  have one: "\<not> bit (buffer [0x00, 0x08] 0) 3"
    "last (timeline False (trace (send_data_v3 still_clock (buffer [0x00, 0x08]) 1 modulator_init)))
       = (False, pulse_on_us)"
    "bit (buffer [0x08, 0x00] 0) 3"
    "last (timeline False (trace (send_data_v3 still_clock (buffer [0x08, 0x00]) 1 modulator_init)))
       = (False, V3_PULSE_LENGHT_US)"
    by code_simp+
  from gen[of micros payload len s] final frame one show ?thesis by (intro conjI) blast+
qed

section \<open>Verification of the scheduler\<close>

lemma loop_transmit_seconds:
  "map_option seconds (loop_transmit micros now s) = map_option (\<lambda>_. seconds s) (loop_transmit micros now s)"
  by (simp add: loop_transmit_def Let_def split: option.splits)

text \<open>
  Claim C8, with the comparison of the code. In every step in which more than 1000 ms have
  passed since the last tick (the 32-bit difference of \<open>millis()\<close> and \<open>lastMillis\<close> is
  above 1000) the tick adds 1 to the seconds and sets the pending flag; in every step in
  which at most 1000 ms have passed it changes neither. The rest of \<open>loop()\<close> leaves the
  seconds as the tick has set them.
\<close>

theorem C8_second_tick:
  "(1000 < now - lastMillis s \<longrightarrow>
      seconds (loop_tick now now' s) = seconds s + 1 \<and> tx_pending (loop_tick now now' s)) \<and>
   (now - lastMillis s \<le> 1000 \<longrightarrow>
      seconds (loop_tick now now' s) = seconds s \<and>
      tx_pending (loop_tick now now' s) = tx_pending s) \<and>
   map_option seconds (loop micros now now' now'' s)
     = map_option (\<lambda>_. seconds (loop_tick now now' s)) (loop micros now now' now'' s)"
proof (intro conjI impI)
  assume "1000 < now - lastMillis s"
  then show "seconds (loop_tick now now' s) = seconds s + 1" "tx_pending (loop_tick now now' s)"
    by (simp_all add: loop_tick_def)
next
  assume "now - lastMillis s \<le> 1000"
  then have "\<not> 1000 < now - lastMillis s" by (simp add: not_less)
  then have "loop_tick now now' s = s" by (simp add: loop_tick_def)
  then show "seconds (loop_tick now now' s) = seconds s"
    "tx_pending (loop_tick now now' s) = tx_pending s" by simp_all
next
  show "map_option seconds (loop micros now now' now'' s)
     = map_option (\<lambda>_. seconds (loop_tick now now' s)) (loop micros now now' now'' s)"
    unfolding loop_def by (rule loop_transmit_seconds)
qed

text \<open>The theorem at 1001 ms and at 999 ms after start, the pending flag cleared.\<close>

theorem C8_second_tick_witness:
  "(1000::u32) < 1001 - lastMillis ((initial_state 1 (buffer []))\<lparr>tx_pending := False\<rparr>) \<and>
   seconds (loop_tick 1001 1002 ((initial_state 1 (buffer []))\<lparr>tx_pending := False\<rparr>)) = 1 \<and>
   tx_pending (loop_tick 1001 1002 ((initial_state 1 (buffer []))\<lparr>tx_pending := False\<rparr>)) \<and>
   (999::u32) - lastMillis ((initial_state 1 (buffer []))\<lparr>tx_pending := False\<rparr>) \<le> 1000 \<and>
   seconds (loop_tick 999 999 ((initial_state 1 (buffer []))\<lparr>tx_pending := False\<rparr>)) = 0 \<and>
   \<not> tx_pending (loop_tick 999 999 ((initial_state 1 (buffer []))\<lparr>tx_pending := False\<rparr>))"
  using C8_second_tick [of 1001 "(initial_state 1 (buffer []))\<lparr>tx_pending := False\<rparr>" 1002]
        C8_second_tick [of 999 "(initial_state 1 (buffer []))\<lparr>tx_pending := False\<rparr>" 999]
  by (simp add: initial_state_def)

text \<open>
  Claim C8 as stated counts a step at exactly 1000 ms. At 1000 ms after start the seconds
  are not incremented and a cleared pending flag stays cleared.
\<close>

theorem C8_exactly_1000_counterexample:
  "(1000::u32) - lastMillis ((initial_state 1 (buffer []))\<lparr>tx_pending := False\<rparr>) = 1000 \<and>
   seconds (loop_tick 1000 1000 ((initial_state 1 (buffer []))\<lparr>tx_pending := False\<rparr>))
     \<noteq> seconds ((initial_state 1 (buffer []))\<lparr>tx_pending := False\<rparr>) + 1 \<and>
   \<not> tx_pending (loop_tick 1000 1000 ((initial_state 1 (buffer []))\<lparr>tx_pending := False\<rparr>))"
  by (simp add: loop_tick_def initial_state_def)

text \<open>
  Claim C9. In every step in which the scheduler transmits (the seconds are a multiple of
  the interval and the flag is pending), the state it returns has the temperature
  increased by 0.1 in \<open>float\<close> arithmetic, or 19 where that sum is above 45, and the
  humidity increased by 1, or 30 where that sum is above 95. And it does return wherever
  the temperature is within 1000 degrees, so that its tenths fit 16 bits.
\<close>

theorem C9_reading_increment:
  assumes "seconds s mod V3_TX_INTERVAL_SECS = 0" and "tx_pending s"
  shows "(\<forall>s'. loop_transmit micros now s = Some s' \<longrightarrow>
            t_temp s' = (if 45 < float32 (t_temp s + float32 (1 / 10)) then 19
                         else float32 (t_temp s + float32 (1 / 10))) \<and>
            t_hum s' = (if 95 < t_hum s + 1 then 30 else t_hum s + 1)) \<and>
         (\<bar>t_temp s\<bar> \<le> 1000 \<longrightarrow> (\<exists>s'. loop_transmit micros now s = Some s'))"
proof (intro conjI allI impI)
  fix s'
  assume r: "loop_transmit micros now s = Some s'"
  from r assms show "t_temp s' = (if 45 < float32 (t_temp s + float32 (1 / 10)) then 19
                         else float32 (t_temp s + float32 (1 / 10)))"
    by (auto simp add: loop_transmit_def Let_def split: if_splits option.splits)
  from r assms show "t_hum s' = (if 95 < t_hum s + 1 then 30 else t_hum s + 1)"
    by (auto simp add: loop_transmit_def Let_def split: if_splits option.splits)
next
  assume "\<bar>t_temp s\<bar> \<le> 1000"
  from float_to_u16_abs[OF t10_defined[OF this]]
  obtain t10 where "float_to_u16 \<bar>float32 (t_temp s * float32 (10001 / 1000))\<bar> = Some t10"
    by blast
  from payload_thgn801_bytes[OF this, of "buf s" "rcode s" "t_hum s"]
  obtain p where "payload_thgn801 (buf s) (rcode s) (t_temp s) (t_hum s) = Some p" by blast
  then show "\<exists>s'. loop_transmit micros now s = Some s'"
    using assms by (simp add: loop_transmit_def Let_def)
qed

text \<open>From 45 degrees and 95 percent the step leads to 19 degrees and 30 percent.\<close>

lemma step_past_45: "45 < float32 (45 + float32 (1 / 10))"
  by code_simp

theorem C9_reading_increment_witness:
  "seconds ((initial_state 1 (buffer []))\<lparr>t_temp := 45, t_hum := 95\<rparr>) mod V3_TX_INTERVAL_SECS = 0 \<and>
   tx_pending ((initial_state 1 (buffer []))\<lparr>t_temp := 45, t_hum := 95\<rparr>) \<and>
   \<bar>t_temp ((initial_state 1 (buffer []))\<lparr>t_temp := 45, t_hum := 95\<rparr>)\<bar> \<le> 1000 \<and>
   (\<exists>s'. loop_transmit still_clock 0 ((initial_state 1 (buffer []))\<lparr>t_temp := 45, t_hum := 95\<rparr>) = Some s' \<and>
         t_temp s' = 19 \<and> t_hum s' = 30)"
proof -
  let ?s = "(initial_state 1 (buffer []))\<lparr>t_temp := 45, t_hum := 95\<rparr>"
  have h1: "seconds ?s mod V3_TX_INTERVAL_SECS = 0" by (simp add: initial_state_def)
  have h2: "tx_pending ?s" by (simp add: initial_state_def)
  have h3: "\<bar>t_temp ?s\<bar> \<le> 1000" by simp
  from C9_reading_increment[OF h1 h2, of still_clock 0] h3
  obtain s' where s': "loop_transmit still_clock 0 ?s = Some s'"
    "t_temp s' = (if 45 < float32 (t_temp ?s + float32 (1 / 10)) then 19
                         else float32 (t_temp ?s + float32 (1 / 10)))"
    "t_hum s' = (if 95 < t_hum ?s + 1 then 30 else t_hum ?s + 1)"
    by blast
  have "t_temp s' = 19" using s'(2) step_past_45 by simp
  moreover have "t_hum s' = 30" using s'(3) by simp
  ultimately show ?thesis using h1 h2 h3 s'(1) by blast
qed

end
